theory Spec2Isabelle
  imports Complex_Main
begin
section \<open>Numbers\<close>

text \<open>
  A JavaScript number is \<open>NaN\<close>, one of the two infinities, or a finite number. The
  finite numbers are modelled as reals with exact arithmetic: rounding and overflow are
  not modelled, and negative zero is not told apart from zero. The operations follow
  IEEE 754 on the special values: \<open>NaN\<close> is contagious, \<open>Infinity - Infinity\<close>,
  \<open>0 * Infinity\<close>, \<open>0 / 0\<close> and \<open>Infinity / Infinity\<close> are \<open>NaN\<close>, and every comparison
  with \<open>NaN\<close> is false.
\<close>

datatype number = NaN | NegInf | Fin real | PosInf

instantiation number :: "{uminus, plus, times, ord}"
begin

fun uminus_number :: "number \<Rightarrow> number" where
  "uminus_number NaN = NaN"
| "uminus_number NegInf = PosInf"
| "uminus_number (Fin a) = Fin (- a)"
| "uminus_number PosInf = NegInf"

fun plus_number :: "number \<Rightarrow> number \<Rightarrow> number" where
  "plus_number NaN y = NaN"
| "plus_number x NaN = NaN"
| "plus_number (Fin a) (Fin b) = Fin (a + b)"
| "plus_number PosInf NegInf = NaN"
| "plus_number NegInf PosInf = NaN"
| "plus_number PosInf y = PosInf"
| "plus_number x PosInf = PosInf"
| "plus_number NegInf y = NegInf"
| "plus_number x NegInf = NegInf"

fun times_number :: "number \<Rightarrow> number \<Rightarrow> number" where
  "times_number NaN y = NaN"
| "times_number x NaN = NaN"
| "times_number (Fin a) (Fin b) = Fin (a * b)"
| "times_number PosInf (Fin b) = (if b = 0 then NaN else if 0 < b then PosInf else NegInf)"
| "times_number NegInf (Fin b) = (if b = 0 then NaN else if 0 < b then NegInf else PosInf)"
| "times_number (Fin a) PosInf = (if a = 0 then NaN else if 0 < a then PosInf else NegInf)"
| "times_number (Fin a) NegInf = (if a = 0 then NaN else if 0 < a then NegInf else PosInf)"
| "times_number PosInf PosInf = PosInf"
| "times_number NegInf NegInf = PosInf"
| "times_number PosInf NegInf = NegInf"
| "times_number NegInf PosInf = NegInf"

fun less_eq_number :: "number \<Rightarrow> number \<Rightarrow> bool" where
  "less_eq_number NaN y = False"
| "less_eq_number x NaN = False"
| "less_eq_number (Fin a) (Fin b) = (a \<le> b)"
| "less_eq_number NegInf y = True"
| "less_eq_number x PosInf = True"
| "less_eq_number x y = False"

fun less_number :: "number \<Rightarrow> number \<Rightarrow> bool" where
  "less_number NaN y = False"
| "less_number x NaN = False"
| "less_number (Fin a) (Fin b) = (a < b)"
| "less_number PosInf y = False"
| "less_number x NegInf = False"
| "less_number x y = True"

instance ..

end

instantiation number :: "{minus, inverse}"
begin

definition minus_number :: "number \<Rightarrow> number \<Rightarrow> number" where
  "minus_number x y = x + (- y)"

fun divide_number :: "number \<Rightarrow> number \<Rightarrow> number" where
  "divide_number NaN y = NaN"
| "divide_number x NaN = NaN"
| "divide_number (Fin a) (Fin b) =
     (if b = 0 then (if a = 0 then NaN else if 0 < a then PosInf else NegInf)
      else Fin (a / b))"
| "divide_number (Fin a) PosInf = Fin 0"
| "divide_number (Fin a) NegInf = Fin 0"
| "divide_number PosInf (Fin b) = (if b < 0 then NegInf else PosInf)"
| "divide_number NegInf (Fin b) = (if b < 0 then PosInf else NegInf)"
| "divide_number x y = NaN"

definition inverse_number :: "number \<Rightarrow> number" where
  "inverse_number x = (case x of Fin a \<Rightarrow> (if a = 0 then PosInf else Fin (1 / a))
                       | NaN \<Rightarrow> NaN | x \<Rightarrow> Fin 0)"

instance ..

end

text \<open>\<open>Math.max\<close> and \<open>Math.min\<close> of two numbers, \<open>Number.isFinite\<close> and \<open>===\<close>.\<close>

fun Math_max :: "number \<Rightarrow> number \<Rightarrow> number" where
  "Math_max NaN y = NaN"
| "Math_max x NaN = NaN"
| "Math_max x y = (if x \<le> y then y else x)"

fun Math_min :: "number \<Rightarrow> number \<Rightarrow> number" where
  "Math_min NaN y = NaN"
| "Math_min x NaN = NaN"
| "Math_min x y = (if x \<le> y then x else y)"

fun isFinite :: "number \<Rightarrow> bool" where
  "isFinite (Fin a) = True"
| "isFinite x = False"

definition strict_eq :: "number \<Rightarrow> number \<Rightarrow> bool" where
  "strict_eq x y = (x \<noteq> NaN \<and> y \<noteq> NaN \<and> x = y)"

text \<open>\<open>Phaser.Math.Clamp(value, min, max)\<close> is \<open>Math.max(min, Math.min(max, value))\<close>.\<close>

definition Clamp :: "number \<Rightarrow> number \<Rightarrow> number \<Rightarrow> number" where
  "Clamp v lo hi = Math_max lo (Math_min hi v)"
section \<open>DebugScrollContainer\<close>

subsection \<open>Content items\<close>

text \<open>
  A content child is probed for four optional capabilities: its \<open>y\<close>, its
  \<open>displayHeight\<close>, its \<open>height\<close>, and \<open>getBounds()\<close> (of which only the
  height is read). A capability that is absent is \<open>None\<close>.
\<close>

record item =
  i_y :: "number option"
  i_displayHeight :: "number option"
  i_height :: "number option"
  i_boundsHeight :: "number option"

text \<open>\<open>typeof v === "number" && v > 0\<close>, then \<open>v / 2\<close>.\<close>

fun half_if_positive :: "number option \<Rightarrow> number option" where
  "half_if_positive (Some d) = (if Fin 0 < d then Some (d / Fin 2) else None)"
| "half_if_positive None = None"

definition getItemHalfHeight :: "item \<Rightarrow> number" where
  "getItemHalfHeight it =
     (case half_if_positive (i_displayHeight it) of
        Some h \<Rightarrow> h
      | None \<Rightarrow>
          (case half_if_positive (i_height it) of
             Some h \<Rightarrow> h
           | None \<Rightarrow>
               (case i_boundsHeight it of
                  Some bh \<Rightarrow> bh / Fin 2
                | None \<Rightarrow> Fin 0)))"

text \<open>\<open>transform.y ?? 0\<close>\<close>

definition item_y :: "item \<Rightarrow> number" where
  "item_y it = (case i_y it of Some v \<Rightarrow> v | None \<Rightarrow> Fin 0)"

subsection \<open>State\<close>

text \<open>
  What the Graphics objects hold after \<open>clear()\<close> and the fill and stroke calls that
  follow it is a list of shapes. Colours select a fill style only and are left out.
\<close>

datatype shape =
  FillRoundedRect number number number number number
| StrokeRoundedRect number number number number number number

record scroll =
  c_width :: number
  c_height :: number
  paddingLeft :: number
  paddingRight :: number
  paddingTop :: number
  paddingBottom :: number
  strokeThickness :: number
  cornerRadius :: number
  scrollbarEnabled :: bool
  scrollbarWidth :: number
  scrollbarMinThumbHeight :: number
  wheelEnabled :: bool
  wheelStep :: number
  contentMinY :: number
  contentHeight :: number
  scrollY :: number
  content :: "item list"
  c_position :: "number \<times> number"
  c_size :: "number \<times> number"
  panel :: "shape list"
  maskGraphics :: "shape list"
  wheelZone_position :: "number \<times> number"
  wheelZone_size :: "number \<times> number"
  content_position :: "number \<times> number"
  scrollbar :: "shape list"
  emitted :: "(number \<times> number) list"

subsection \<open>Viewport geometry\<close>

definition getViewportLeft :: "scroll \<Rightarrow> number" where
  "getViewportLeft s = - c_width s / Fin 2 + paddingLeft s"

definition getViewportTop :: "scroll \<Rightarrow> number" where
  "getViewportTop s = - c_height s / Fin 2 + paddingTop s"

definition getViewportWidth :: "scroll \<Rightarrow> number" where
  "getViewportWidth s = Math_max (Fin 1) (c_width s - paddingLeft s - paddingRight s)"

definition getViewportHeight :: "scroll \<Rightarrow> number" where
  "getViewportHeight s = Math_max (Fin 1) (c_height s - paddingTop s - paddingBottom s)"

definition getScrollY :: "scroll \<Rightarrow> number" where
  "getScrollY s = scrollY s"

definition getMaxScrollY :: "scroll \<Rightarrow> number" where
  "getMaxScrollY s = Math_max (Fin 0) (contentHeight s - getViewportHeight s)"


subsection \<open>Redrawing\<close>

definition setSize :: "number \<Rightarrow> number \<Rightarrow> scroll \<Rightarrow> scroll" where
  "setSize w h s = s\<lparr>c_size := (w, h)\<rparr>"

definition redrawPanel :: "scroll \<Rightarrow> scroll" where
  "redrawPanel s =
     (let halfW = c_width s / Fin 2;
          halfH = c_height s / Fin 2;
          fill = FillRoundedRect (- halfW) (- halfH) (c_width s) (c_height s) (cornerRadius s)
      in if strokeThickness s \<le> Fin 0 then s\<lparr>panel := [fill]\<rparr>
         else s\<lparr>panel := [fill,
                StrokeRoundedRect (- halfW) (- halfH) (c_width s) (c_height s) (cornerRadius s)
                  (strokeThickness s)]\<rparr>)"

definition redrawMaskAndWheelZone :: "scroll \<Rightarrow> scroll" where
  "redrawMaskAndWheelZone s =
     (let viewportLeft = getViewportLeft s;
          viewportTop = getViewportTop s;
          viewportWidth = getViewportWidth s;
          viewportHeight = getViewportHeight s;
          clipRadius = Math_max (Fin 0) (cornerRadius s - strokeThickness s)
      in s\<lparr>maskGraphics :=
               [FillRoundedRect viewportLeft viewportTop viewportWidth viewportHeight clipRadius],
            wheelZone_position :=
               (viewportLeft + viewportWidth / Fin 2, viewportTop + viewportHeight / Fin 2),
            wheelZone_size := (viewportWidth, viewportHeight)\<rparr>)"

text \<open>The loop of \<open>updateContentMetrics\<close> over the content list.\<close>

fun scan_items :: "item list \<Rightarrow> number \<times> number \<Rightarrow> number \<times> number" where
  "scan_items [] acc = acc"
| "scan_items (it # its) (minY, maxY) =
     scan_items its
       (Math_min minY (item_y it - getItemHalfHeight it),
        Math_max maxY (item_y it + getItemHalfHeight it))"

definition updateContentMetrics :: "scroll \<Rightarrow> scroll" where
  "updateContentMetrics s =
     (if content s = [] then s\<lparr>contentMinY := Fin 0, contentHeight := Fin 0\<rparr>
      else
        (case scan_items (content s) (PosInf, NegInf) of
           (minY, maxY) \<Rightarrow>
             if \<not> isFinite minY \<or> \<not> isFinite maxY
             then s\<lparr>contentMinY := Fin 0, contentHeight := Fin 0\<rparr>
             else s\<lparr>contentMinY := minY, contentHeight := Math_max (Fin 0) (maxY - minY)\<rparr>))"

definition applyScroll :: "scroll \<Rightarrow> scroll" where
  "applyScroll s =
     s\<lparr>content_position :=
          (getViewportLeft s, getViewportTop s - contentMinY s - scrollY s)\<rparr>"

definition redrawScrollbar :: "scroll \<Rightarrow> scroll" where
  "redrawScrollbar s =
     (if \<not> scrollbarEnabled s then s\<lparr>scrollbar := []\<rparr>
      else
        let maxScroll = getMaxScrollY s in
        if maxScroll \<le> Fin 0 then s\<lparr>scrollbar := []\<rparr>
        else
          let viewportLeft = getViewportLeft s;
              viewportTop = getViewportTop s;
              viewportWidth = getViewportWidth s;
              viewportHeight = getViewportHeight s;
              barWidth = Math_max (Fin 2) (scrollbarWidth s)
          in
          if viewportWidth \<le> barWidth then s\<lparr>scrollbar := []\<rparr>
          else
            let x = viewportLeft + viewportWidth - barWidth;
                trackRadius = barWidth / Fin 2;
                rawThumbHeight = (viewportHeight / contentHeight s) * viewportHeight;
                thumbHeight = Clamp rawThumbHeight (scrollbarMinThumbHeight s) viewportHeight;
                travel = Math_max (Fin 0) (viewportHeight - thumbHeight);
                thumbY = viewportTop + (scrollY s / maxScroll) * travel
            in s\<lparr>scrollbar :=
                    [FillRoundedRect x viewportTop barWidth viewportHeight trackRadius,
                     FillRoundedRect x thumbY barWidth thumbHeight trackRadius]\<rparr>)"

subsection \<open>Layout and scrolling\<close>

definition layout :: "scroll \<Rightarrow> scroll" where
  "layout s0 =
     (let s1 = setSize (c_width s0) (c_height s0) s0;
          s2 = redrawPanel s1;
          s3 = redrawMaskAndWheelZone s2;
          s4 = updateContentMetrics s3;
          s5 = s4\<lparr>scrollY := Clamp (scrollY s4) (Fin 0) (getMaxScrollY s4)\<rparr>;
          s6 = applyScroll s5
      in redrawScrollbar s6)"

definition emit_scroll_changed :: "number \<Rightarrow> number \<Rightarrow> scroll \<Rightarrow> scroll" where
  "emit_scroll_changed v m s = s\<lparr>emitted := emitted s @ [(v, m)]\<rparr>"

definition setScrollY :: "number \<Rightarrow> scroll \<Rightarrow> scroll" where
  "setScrollY v s =
     (let clamped = Clamp v (Fin 0) (getMaxScrollY s) in
      if strict_eq clamped (scrollY s) then s
      else
        let s1 = s\<lparr>scrollY := clamped\<rparr>;
            s2 = applyScroll s1;
            s3 = redrawScrollbar s2
        in emit_scroll_changed (scrollY s3) (getMaxScrollY s3) s3)"


definition scrollToTop :: "scroll \<Rightarrow> scroll" where
  "scrollToTop s = setScrollY (Fin 0) s"


text \<open>\<open>addItem\<close>, \<open>addItems\<close> and \<open>removeAllItems\<close> change the content list and lay out again.\<close>

definition addItem :: "item \<Rightarrow> scroll \<Rightarrow> scroll" where
  "addItem child s = layout (s\<lparr>content := content s @ [child]\<rparr>)"

definition addItems :: "item list \<Rightarrow> scroll \<Rightarrow> scroll" where
  "addItems children s =
     (if children = [] then s else layout (s\<lparr>content := content s @ children\<rparr>))"

definition removeAllItems :: "scroll \<Rightarrow> scroll" where
  "removeAllItems s = (if content s = [] then s else layout (s\<lparr>content := []\<rparr>))"

definition setViewportSize :: "number \<Rightarrow> number \<Rightarrow> scroll \<Rightarrow> scroll" where
  "setViewportSize w h s =
     (let s1 = s\<lparr>c_width := Math_max (Fin 1) w, c_height := Math_max (Fin 1) h\<rparr>
      in layout (setSize (c_width s1) (c_height s1) s1))"

subsection \<open>Construction\<close>

text \<open>
  The options object: every field is optional, and an absent field takes the default
  of the constructor's destructuring.
\<close>

record scroll_options =
  o_width :: "number option"
  o_height :: "number option"
  o_paddingLeft :: "number option"
  o_paddingRight :: "number option"
  o_paddingTop :: "number option"
  o_paddingBottom :: "number option"
  o_strokeThickness :: "number option"
  o_cornerRadius :: "number option"
  o_scrollbarEnabled :: "bool option"
  o_scrollbarWidth :: "number option"
  o_scrollbarMinThumbHeight :: "number option"
  o_wheelEnabled :: "bool option"
  o_wheelStep :: "number option"
  o_initialScrollY :: "number option"
  o_position :: "(number \<times> number) option"

definition dflt :: "'a \<Rightarrow> 'a option \<Rightarrow> 'a" where
  "dflt d v = (case v of Some x \<Rightarrow> x | None \<Rightarrow> d)"

definition no_options :: scroll_options where
  "no_options =
     \<lparr>o_width = None, o_height = None, o_paddingLeft = None, o_paddingRight = None,
      o_paddingTop = None, o_paddingBottom = None, o_strokeThickness = None,
      o_cornerRadius = None, o_scrollbarEnabled = None, o_scrollbarWidth = None,
      o_scrollbarMinThumbHeight = None, o_wheelEnabled = None, o_wheelStep = None,
      o_initialScrollY = None, o_position = None\<rparr>"

text \<open>The fields as the constructor leaves them just before it calls \<open>layout()\<close>.\<close>

definition constructed_fields :: "scroll_options \<Rightarrow> scroll" where
  "constructed_fields opts =
     \<lparr>c_width = dflt (Fin 320) (o_width opts),
      c_height = dflt (Fin 220) (o_height opts),
      paddingLeft = dflt (Fin 10) (o_paddingLeft opts),
      paddingRight = dflt (Fin 10) (o_paddingRight opts),
      paddingTop = dflt (Fin 10) (o_paddingTop opts),
      paddingBottom = dflt (Fin 10) (o_paddingBottom opts),
      strokeThickness = dflt (Fin 2) (o_strokeThickness opts),
      cornerRadius = dflt (Fin 10) (o_cornerRadius opts),
      scrollbarEnabled = dflt True (o_scrollbarEnabled opts),
      scrollbarWidth = dflt (Fin 6) (o_scrollbarWidth opts),
      scrollbarMinThumbHeight = dflt (Fin 24) (o_scrollbarMinThumbHeight opts),
      wheelEnabled = dflt True (o_wheelEnabled opts),
      wheelStep = dflt (Fin 24) (o_wheelStep opts),
      contentMinY = Fin 0,
      contentHeight = Fin 0,
      scrollY = Fin 0,
      content = [],
      c_position = dflt (Fin 0, Fin 0) (o_position opts),
      c_size = (dflt (Fin 320) (o_width opts), dflt (Fin 220) (o_height opts)),
      panel = [],
      maskGraphics = [],
      wheelZone_position = (Fin 0, Fin 0),
      wheelZone_size = (Fin 1, Fin 1),
      content_position = (Fin 0, Fin 0),
      scrollbar = [],
      emitted = []\<rparr>"

definition DebugScrollContainer :: "scroll_options \<Rightarrow> scroll" where
  "DebugScrollContainer opts =
     setScrollY (dflt (Fin 0) (o_initialScrollY opts)) (layout (constructed_fields opts))"
section \<open>layoutAuto: the frame-batched layout scheduler\<close>

subsection \<open>State\<close>

text \<open>
  The closure of \<open>layoutAuto\<close> holds the \<open>dirty\<close> set and the two flags. A JavaScript
  \<open>Set\<close> iterates in insertion order, so it is a list without duplicates.
  \<open>listening\<close> says whether \<open>onFlushEvent\<close> is attached to the scene, and \<open>calls\<close>
  records every \<open>target.layout()\<close> the scheduler has invoked, oldest first.
\<close>

record 'a sched =
  dirty :: "'a list"
  destroyed :: bool
  isFlushing :: bool
  listening :: bool
  calls :: "'a list"

definition Set_add :: "'a list \<Rightarrow> 'a \<Rightarrow> 'a list" where
  "Set_add xs t = (if t \<in> set xs then xs else xs @ [t])"

definition Set_delete :: "'a list \<Rightarrow> 'a \<Rightarrow> 'a list" where
  "Set_delete xs t = removeAll t xs"

definition layoutAuto :: "'a sched" where
  "layoutAuto =
     \<lparr>dirty = [], destroyed = False, isFlushing = False, listening = True, calls = []\<rparr>"

subsection \<open>Operations that do not run a layout\<close>

text \<open>
  The methods \<open>remove\<close> and \<open>clear\<close> of the scheduler are \<open>removeTarget\<close> and
  \<open>clearDirty\<close> here.
\<close>

definition markDirty :: "'a \<Rightarrow> 'a sched \<Rightarrow> 'a sched" where
  "markDirty target s =
     (if destroyed s then s else s\<lparr>dirty := Set_add (dirty s) target\<rparr>)"

definition markDirtyMany :: "'a list \<Rightarrow> 'a sched \<Rightarrow> 'a sched" where
  "markDirtyMany targets s =
     (if destroyed s \<or> targets = [] then s
      else s\<lparr>dirty := foldl Set_add (dirty s) targets\<rparr>)"

definition removeTarget :: "'a \<Rightarrow> 'a sched \<Rightarrow> 'a sched" where
  "removeTarget target s =
     (if destroyed s then s else s\<lparr>dirty := Set_delete (dirty s) target\<rparr>)"

definition clearDirty :: "'a sched \<Rightarrow> 'a sched" where
  "clearDirty s = (if destroyed s then s else s\<lparr>dirty := []\<rparr>)"

definition destroyScheduler :: "'a sched \<Rightarrow> 'a sched" where
  "destroyScheduler s =
     (if destroyed s then s else s\<lparr>destroyed := True, dirty := [], listening := False\<rparr>)"

definition isDestroyed :: "'a sched \<Rightarrow> bool" where
  "isDestroyed s = destroyed s"

definition getDirtyCount :: "'a sched \<Rightarrow> nat" where
  "getDirtyCount s = length (dirty s)"

subsection \<open>Targets\<close>

text \<open>
  A target is an opaque object with a \<open>layout()\<close> method. What the scheduler can see of
  one call of \<open>layout()\<close> is the sequence of calls it makes back into the scheduler,
  which may end with an exception thrown out of \<open>layout()\<close>.
\<close>

datatype 'a call =
  MarkDirty 'a
| MarkDirtyMany "'a list"
| Remove 'a
| Clear
| Flush
| Destroy
| Throw

type_synonym 'a behaviour = "'a \<Rightarrow> 'a call list"

datatype outcome = Returned | Threw

type_synonym 'a run = "(outcome \<times> 'a sched) option"

subsection \<open>Flushing\<close>

text \<open>
  \<open>flush\<close> stands for what \<open>scheduler.flush()\<close> does when a layout calls it. An exception
  ends the layout at once, with the state as it is at that moment.
\<close>

fun exec_call :: "('a sched \<Rightarrow> 'a run) \<Rightarrow> 'a call \<Rightarrow> 'a sched \<Rightarrow> 'a run" where
  "exec_call flush (MarkDirty t) s = Some (Returned, markDirty t s)"
| "exec_call flush (MarkDirtyMany ts) s = Some (Returned, markDirtyMany ts s)"
| "exec_call flush (Remove t) s = Some (Returned, removeTarget t s)"
| "exec_call flush Clear s = Some (Returned, clearDirty s)"
| "exec_call flush Flush s = flush s"
| "exec_call flush Destroy s = Some (Returned, destroyScheduler s)"
| "exec_call flush Throw s = Some (Threw, s)"

fun exec_layout :: "('a sched \<Rightarrow> 'a run) \<Rightarrow> 'a call list \<Rightarrow> 'a sched \<Rightarrow> 'a run" where
  "exec_layout flush [] s = Some (Returned, s)"
| "exec_layout flush (c # cs) s =
     (case exec_call flush c s of
        None \<Rightarrow> None
      | Some (Threw, s') \<Rightarrow> Some (Threw, s')
      | Some (Returned, s') \<Rightarrow> exec_layout flush cs s')"

text \<open>The \<open>for\<close> loop of \<open>flushNow\<close> over the snapshot \<open>queue\<close>.\<close>

fun run_queue :: "('a sched \<Rightarrow> 'a run) \<Rightarrow> 'a behaviour \<Rightarrow> 'a list \<Rightarrow> 'a sched \<Rightarrow> 'a run" where
  "run_queue flush b [] s = Some (Returned, s)"
| "run_queue flush b (target # queue) s =
     (if destroyed s then Some (Returned, s)
      else
        (case exec_layout flush (b target) (s\<lparr>calls := calls s @ [target]\<rparr>) of
           None \<Rightarrow> None
         | Some (Threw, s') \<Rightarrow> Some (Threw, s')
         | Some (Returned, s') \<Rightarrow> run_queue flush b queue s'))"

text \<open>
  \<open>flushNow\<close> calls layouts, and a layout may call \<open>flush()\<close>, which is \<open>flushNow\<close> again.
  The first argument bounds the depth of that nesting and \<open>None\<close> means the bound was
  reached. The guard is tested before the bound is.
\<close>

primrec flushNow :: "nat \<Rightarrow> 'a behaviour \<Rightarrow> 'a sched \<Rightarrow> 'a run" where
  "flushNow 0 b s =
     (if destroyed s \<or> dirty s = [] \<or> isFlushing s then Some (Returned, s) else None)"
| "flushNow (Suc n) b s =
     (if destroyed s \<or> dirty s = [] \<or> isFlushing s then Some (Returned, s)
      else
        (case run_queue (flushNow n b) b (dirty s) (s\<lparr>isFlushing := True, dirty := []\<rparr>) of
           None \<Rightarrow> None
         | Some (Threw, s') \<Rightarrow> Some (Threw, s')
         | Some (Returned, s') \<Rightarrow> Some (Returned, s'\<lparr>isFlushing := False\<rparr>)))"

definition flush :: "nat \<Rightarrow> 'a behaviour \<Rightarrow> 'a sched \<Rightarrow> 'a run" where
  "flush n b s = flushNow n b s"

definition onFlushEvent :: "nat \<Rightarrow> 'a behaviour \<Rightarrow> 'a sched \<Rightarrow> 'a run" where
  "onFlushEvent n b s =
     (if destroyed s \<or> dirty s = [] then Some (Returned, s) else flushNow n b s)"

text \<open>The layouts the scheduler has invoked since the state \<open>s\<close>, given the later state.\<close>

definition calls_since :: "'a sched \<Rightarrow> 'a sched \<Rightarrow> 'a list" where
  "calls_since s s' = drop (length (calls s)) (calls s')"
section \<open>anchorToViewport\<close>

text \<open>
  The positions, sizes and insets of this section are finite numbers. They are modelled
  as reals with exact arithmetic.
\<close>

datatype ViewportAnchor =
  TopLeft | TopCenter | TopRight
| CenterLeft | Center | CenterRight
| BottomLeft | BottomCenter | BottomRight

record SafeAreaInsets =
  in_left :: real
  in_right :: real
  in_top :: real
  in_bottom :: real

record PartialInsets =
  ex_left :: "real option"
  ex_right :: "real option"
  ex_top :: "real option"
  ex_bottom :: "real option"

record SafeAreaOptions =
  extraInsets :: "PartialInsets option"
  useCssEnvInsets :: "bool option"

record Rectangle =
  r_x :: real
  r_y :: real
  r_width :: real
  r_height :: real

text \<open>
  What the functions read of the scene and of the browser: the size of the scale
  manager, the rectangle \<open>scale.getViewPort\<close> returns (\<open>None\<close> when the method is missing
  or returns nothing), the width and height of the canvas's bounding client rectangle
  (\<open>None\<close> without a canvas), and the paddings the safe-area probe computes, already
  parsed (\<open>None\<close> without a \<open>document\<close>).
\<close>

record scene =
  scale_width :: real
  scale_height :: real
  viewPort :: "Rectangle option"
  canvas_rect :: "(real \<times> real) option"
  css_insets :: "SafeAreaInsets option"

record target =
  t_scene :: "scene option"
  t_displayWidth :: "real option"
  t_displayHeight :: "real option"
  t_width :: "real option"
  t_height :: "real option"
  t_bounds :: "(real \<times> real) option"
  t_setPosition :: bool
  t_position :: "real \<times> real"

datatype error = SceneNotFound | NoSetPosition

definition zeroInsets :: SafeAreaInsets where
  "zeroInsets = \<lparr>in_left = 0, in_right = 0, in_top = 0, in_bottom = 0\<rparr>"

definition getCssSafeAreaInsetsPx :: "scene \<Rightarrow> SafeAreaInsets" where
  "getCssSafeAreaInsetsPx sc = (case css_insets sc of None \<Rightarrow> zeroInsets | Some i \<Rightarrow> i)"

definition getCanvasToGameScale :: "scene \<Rightarrow> real \<times> real" where
  "getCanvasToGameScale sc =
     (case canvas_rect sc of
        None \<Rightarrow> (1, 1)
      | Some (w, h) \<Rightarrow>
          if w \<le> 0 \<or> h \<le> 0 then (1, 1) else (scale_width sc / w, scale_height sc / h))"

text \<open>\<open>extraInsets?.left ?? 0\<close> and its three siblings.\<close>

definition extra :: "PartialInsets option \<Rightarrow> (PartialInsets \<Rightarrow> real option) \<Rightarrow> real" where
  "extra e f = (case e of None \<Rightarrow> 0 | Some p \<Rightarrow> dflt 0 (f p))"

definition getSafeAreaInsets :: "scene \<Rightarrow> SafeAreaOptions option \<Rightarrow> SafeAreaInsets" where
  "getSafeAreaInsets sc options =
     (let opts = dflt \<lparr>extraInsets = None, useCssEnvInsets = None\<rparr> options;
          cssInsetsPx = (if dflt True (useCssEnvInsets opts)
                         then getCssSafeAreaInsetsPx sc else zeroInsets);
          scale = getCanvasToGameScale sc
      in \<lparr>in_left = max 0 (in_left cssInsetsPx * fst scale + extra (extraInsets opts) ex_left),
          in_right = max 0 (in_right cssInsetsPx * fst scale + extra (extraInsets opts) ex_right),
          in_top = max 0 (in_top cssInsetsPx * snd scale + extra (extraInsets opts) ex_top),
          in_bottom =
            max 0 (in_bottom cssInsetsPx * snd scale + extra (extraInsets opts) ex_bottom)\<rparr>)"

definition getViewportRect :: "scene \<Rightarrow> Rectangle" where
  "getViewportRect sc =
     (case viewPort sc of
        Some out \<Rightarrow> out
      | None \<Rightarrow> \<lparr>r_x = 0, r_y = 0, r_width = scale_width sc, r_height = scale_height sc\<rparr>)"

definition getDisplaySize :: "target \<Rightarrow> real \<times> real" where
  "getDisplaySize t =
     (if t_displayWidth t \<noteq> None \<or> t_displayHeight t \<noteq> None
      then (max 0 (dflt 0 (t_displayWidth t)), max 0 (dflt 0 (t_displayHeight t)))
      else if t_width t \<noteq> None \<or> t_height t \<noteq> None
      then (max 0 (dflt 0 (t_width t)), max 0 (dflt 0 (t_height t)))
      else
        (case t_bounds t of
           Some (w, h) \<Rightarrow> (max 0 w, max 0 h)
         | None \<Rightarrow> (0, 0)))"

definition setTargetPosition :: "target \<Rightarrow> real \<Rightarrow> real \<Rightarrow> error + target" where
  "setTargetPosition t x y =
     (if \<not> t_setPosition t then Inl NoSetPosition else Inr (t\<lparr>t_position := (x, y)\<rparr>))"

text \<open>The \<open>default\<close> branches of the two switches are not reachable from a \<open>ViewportAnchor\<close>.\<close>

fun computeAnchoredX :: "ViewportAnchor \<Rightarrow> real \<Rightarrow> real \<Rightarrow> real \<Rightarrow> real \<Rightarrow> real" where
  "computeAnchoredX TopLeft left availableWidth right halfWidth = left + halfWidth"
| "computeAnchoredX CenterLeft left availableWidth right halfWidth = left + halfWidth"
| "computeAnchoredX BottomLeft left availableWidth right halfWidth = left + halfWidth"
| "computeAnchoredX TopCenter left availableWidth right halfWidth = left + availableWidth / 2"
| "computeAnchoredX Center left availableWidth right halfWidth = left + availableWidth / 2"
| "computeAnchoredX BottomCenter left availableWidth right halfWidth = left + availableWidth / 2"
| "computeAnchoredX TopRight left availableWidth right halfWidth = right - halfWidth"
| "computeAnchoredX CenterRight left availableWidth right halfWidth = right - halfWidth"
| "computeAnchoredX BottomRight left availableWidth right halfWidth = right - halfWidth"

fun computeAnchoredY :: "ViewportAnchor \<Rightarrow> real \<Rightarrow> real \<Rightarrow> real \<Rightarrow> real \<Rightarrow> real" where
  "computeAnchoredY TopLeft top' availableHeight bottom' halfHeight = top' + halfHeight"
| "computeAnchoredY TopCenter top' availableHeight bottom' halfHeight = top' + halfHeight"
| "computeAnchoredY TopRight top' availableHeight bottom' halfHeight = top' + halfHeight"
| "computeAnchoredY CenterLeft top' availableHeight bottom' halfHeight = top' + availableHeight / 2"
| "computeAnchoredY Center top' availableHeight bottom' halfHeight = top' + availableHeight / 2"
| "computeAnchoredY CenterRight top' availableHeight bottom' halfHeight = top' + availableHeight / 2"
| "computeAnchoredY BottomLeft top' availableHeight bottom' halfHeight = bottom' - halfHeight"
| "computeAnchoredY BottomCenter top' availableHeight bottom' halfHeight = bottom' - halfHeight"
| "computeAnchoredY BottomRight top' availableHeight bottom' halfHeight = bottom' - halfHeight"

text \<open>The options of \<open>anchorToViewport\<close> after its destructuring, and the handle's flag.\<close>

record binding =
  b_anchor :: ViewportAnchor
  b_offsetX :: real
  b_offsetY :: real
  b_useSafeArea :: bool
  b_safeArea :: "SafeAreaOptions option"
  b_autoResize :: bool
  b_destroyed :: bool

definition placeTarget :: "binding \<Rightarrow> scene \<Rightarrow> target \<Rightarrow> error + target" where
  "placeTarget bd sc t =
     (if b_destroyed bd then Inr t
      else
        let viewport = getViewportRect sc;
            insets = (if b_useSafeArea bd then getSafeAreaInsets sc (b_safeArea bd)
                      else zeroInsets);
            left = r_x viewport + in_left insets;
            right = r_x viewport + r_width viewport - in_right insets;
            top' = r_y viewport + in_top insets;
            bottom' = r_y viewport + r_height viewport - in_bottom insets;
            availableWidth = max 0 (right - left);
            availableHeight = max 0 (bottom' - top');
            size = getDisplaySize t;
            halfW = fst size / 2;
            halfH = snd size / 2;
            x = computeAnchoredX (b_anchor bd) left availableWidth right halfW + b_offsetX bd;
            y = computeAnchoredY (b_anchor bd) top' availableHeight bottom' halfH + b_offsetY bd
        in setTargetPosition t x y)"

record AnchorToViewportOptions =
  a_scene :: "scene option"
  a_anchor :: "ViewportAnchor option"
  a_offsetX :: "real option"
  a_offsetY :: "real option"
  a_useSafeArea :: "bool option"
  a_safeArea :: "SafeAreaOptions option"
  a_autoResize :: "bool option"

definition destroyHandle :: "binding \<Rightarrow> binding" where
  "destroyHandle bd = (if b_destroyed bd then bd else bd\<lparr>b_destroyed := True\<rparr>)"

text \<open>
  \<open>anchorToViewport\<close> resolves the scene (\<open>options.scene ?? target.scene\<close>), fills in the
  defaults and places the target once. It returns the handle's state and the target.
\<close>

definition anchorToViewport ::
  "AnchorToViewportOptions \<Rightarrow> target \<Rightarrow> error + (binding \<times> scene \<times> target)" where
  "anchorToViewport options t =
     (case (case a_scene options of Some sc \<Rightarrow> Some sc | None \<Rightarrow> t_scene t) of
        None \<Rightarrow> Inl SceneNotFound
      | Some sc \<Rightarrow>
          let bd = \<lparr>b_anchor = dflt TopLeft (a_anchor options),
                    b_offsetX = dflt 0 (a_offsetX options),
                    b_offsetY = dflt 0 (a_offsetY options),
                    b_useSafeArea = dflt True (a_useSafeArea options),
                    b_safeArea = a_safeArea options,
                    b_autoResize = dflt True (a_autoResize options),
                    b_destroyed = False\<rparr>
          in (case placeTarget bd sc t of
                Inl e \<Rightarrow> Inl e
              | Inr t' \<Rightarrow> Inr (bd, sc, t')))"
section \<open>Quantities the statements are about\<close>
subsection \<open>Scroll container\<close>

text \<open>The pair \<open>updateContentMetrics\<close> assigns to \<open>contentMinY\<close> and \<open>contentHeight\<close>.\<close>

definition measured :: "item list \<Rightarrow> number \<times> number" where
  "measured xs =
     (if xs = [] then (Fin 0, Fin 0)
      else
        (case scan_items xs (PosInf, NegInf) of
           (minY, maxY) \<Rightarrow>
             if \<not> isFinite minY \<or> \<not> isFinite maxY then (Fin 0, Fin 0)
             else (minY, Math_max (Fin 0) (maxY - minY))))"

text \<open>What \<open>redrawScrollbar\<close> leaves in the scrollbar's Graphics object.\<close>

definition drawn_scrollbar :: "scroll \<Rightarrow> shape list" where
  "drawn_scrollbar s = scrollbar (redrawScrollbar s)"


text \<open>The scroll offset \<open>layout\<close> leaves behind.\<close>

definition laid_scrollY :: "scroll \<Rightarrow> number" where
  "laid_scrollY s =
     Clamp (scrollY s) (Fin 0)
       (Math_max (Fin 0) (snd (measured (content s)) - getViewportHeight s))"






text \<open>
  \<open>n\<close> items of height \<open>h\<close> stacked downwards from \<open>y = 0\<close> with \<open>gap\<close> between
  neighbours; each is positioned by its centre.
\<close>

definition stacked :: "nat \<Rightarrow> real \<Rightarrow> real \<Rightarrow> item list" where
  "stacked n h gap =
     map (\<lambda>k. \<lparr>i_y = Some (Fin (real k * (h + gap) + h / 2)), i_displayHeight = Some (Fin h),
                i_height = Some (Fin h), i_boundsHeight = None\<rparr>) [0..<n]"

text \<open>A container built from \<open>opts\<close> to which the ten items of the scenario are added.\<close>

definition ten_items_in :: "scroll_options \<Rightarrow> scroll" where
  "ten_items_in opts = addItems (stacked 10 40 10) (DebugScrollContainer opts)"

text \<open>The same container with the default paddings and height \<open>220\<close>.\<close>

definition ten_items_default :: scroll where
  "ten_items_default = ten_items_in (no_options\<lparr>o_height := Some (Fin 220)\<rparr>)"





subsection \<open>Scheduler\<close>

text \<open>A call that ends the pass: the scheduler is destroyed, or the layout throws.\<close>

fun aborts :: "'a call \<Rightarrow> bool" where
  "aborts Destroy = True"
| "aborts Throw = True"
| "aborts c = False"

definition runs_through :: "'a call list \<Rightarrow> bool" where
  "runs_through cs = list_all (\<lambda>c. \<not> aborts c) cs"

text \<open>The targets a call marks dirty, and the layouts that do nothing but mark or flush.\<close>

fun marks_of :: "'a call \<Rightarrow> 'a list" where
  "marks_of (MarkDirty t) = [t]"
| "marks_of (MarkDirtyMany ts) = ts"
| "marks_of c = []"

fun only_marks :: "'a call \<Rightarrow> bool" where
  "only_marks (MarkDirty t) = True"
| "only_marks (MarkDirtyMany ts) = True"
| "only_marks Flush = True"
| "only_marks c = False"

text \<open>
  The targets marked by the layouts of \<open>queue\<close>, in the order of their first mark,
  starting from an empty set.
\<close>

definition marked_during :: "'a behaviour \<Rightarrow> 'a list \<Rightarrow> 'a list" where
  "marked_during b queue =
     foldl Set_add [] (concat (map (\<lambda>t. concat (map marks_of (b t))) queue))"

text \<open>The same layouts with every call of \<open>flush()\<close> taken out.\<close>

definition strip_flush :: "'a behaviour \<Rightarrow> 'a behaviour" where
  "strip_flush b = (\<lambda>t. filter (\<lambda>c. c \<noteq> Flush) (b t))"

text \<open>A sequence of marks with every repetition after the first dropped.\<close>

definition first_marked :: "'a list \<Rightarrow> 'a list" where
  "first_marked ms = rev (remdups (rev ms))"

text \<open>\<open>markDirty\<close> called for each element of \<open>ms\<close> in turn.\<close>

definition mark_all :: "'a list \<Rightarrow> 'a sched \<Rightarrow> 'a sched" where
  "mark_all ms s = foldl (\<lambda>s t. markDirty t s) s ms"

text \<open>
  Three families of targets, numbered from \<open>0\<close>. In the first, target \<open>0\<close> marks
  itself dirty again and calls \<open>flush()\<close>, and target \<open>1\<close> marks target \<open>2\<close>. In the
  second, target \<open>0\<close> destroys the scheduler. In the third, the layout of target \<open>0\<close>
  throws.
\<close>

definition remarking :: "nat behaviour" where
  "remarking t = (if t = 0 then [MarkDirty 0, Flush] else if t = 1 then [MarkDirty 2] else [])"

definition destroying_first :: "nat behaviour" where
  "destroying_first t = (if t = 0 then [Destroy] else [])"

definition throwing_first :: "nat behaviour" where
  "throwing_first t = (if t = 0 then [Throw] else [])"

text \<open>A scheduler in the middle of a pass, after the layout of target \<open>0\<close> was called.\<close>

definition mid_flush :: "nat sched" where
  "mid_flush =
     \<lparr>dirty = [], destroyed = False, isFlushing = True, listening = True, calls = [0]\<rparr>"
text \<open>
  A call that leaves a pending target \<open>t\<close> in the dirty set and lets the pass go on:
  anything but \<open>remove(t)\<close>, \<open>clear()\<close>, \<open>destroy()\<close> and an exception.
\<close>

fun keeps :: "'a \<Rightarrow> 'a call \<Rightarrow> bool" where
  "keeps t (Remove u) = (u \<noteq> t)"
| "keeps t Clear = False"
| "keeps t Destroy = False"
| "keeps t Throw = False"
| "keeps t c = True"

text \<open>
  Targets of which \<open>0\<close> marks target \<open>2\<close> and \<open>1\<close>, laid out after it in the same pass,
  makes the call \<open>c\<close>.
\<close>

definition dropping_mark :: "nat call \<Rightarrow> nat behaviour" where
  "dropping_mark c t = (if t = 0 then [MarkDirty 2] else if t = 1 then [c] else [])"
subsection \<open>Anchors\<close>

text \<open>
  The nine anchor points by name: where each lies horizontally and vertically, as the
  specification lists them.
\<close>

datatype horizontal = AtLeft | HCentered | AtRight

datatype vertical = AtTop | VCentered | AtBottom

fun horizontal_of :: "ViewportAnchor \<Rightarrow> horizontal" where
  "horizontal_of TopLeft = AtLeft"
| "horizontal_of TopCenter = HCentered"
| "horizontal_of TopRight = AtRight"
| "horizontal_of CenterLeft = AtLeft"
| "horizontal_of Center = HCentered"
| "horizontal_of CenterRight = AtRight"
| "horizontal_of BottomLeft = AtLeft"
| "horizontal_of BottomCenter = HCentered"
| "horizontal_of BottomRight = AtRight"

fun vertical_of :: "ViewportAnchor \<Rightarrow> vertical" where
  "vertical_of TopLeft = AtTop"
| "vertical_of TopCenter = AtTop"
| "vertical_of TopRight = AtTop"
| "vertical_of CenterLeft = VCentered"
| "vertical_of Center = VCentered"
| "vertical_of CenterRight = VCentered"
| "vertical_of BottomLeft = AtBottom"
| "vertical_of BottomCenter = AtBottom"
| "vertical_of BottomRight = AtBottom"

text \<open>
  The viewport rectangle moved in by the safe-area insets, and the position the
  specification describes inside it: the target's half size inwards from the left,
  right, top or bottom edge, or the middle of the rectangle, plus the offset.
\<close>

definition insets_of :: "binding \<Rightarrow> scene \<Rightarrow> SafeAreaInsets" where
  "insets_of bd sc =
     (if b_useSafeArea bd then getSafeAreaInsets sc (b_safeArea bd) else zeroInsets)"

definition inner_left :: "binding \<Rightarrow> scene \<Rightarrow> real" where
  "inner_left bd sc = r_x (getViewportRect sc) + in_left (insets_of bd sc)"

definition inner_right :: "binding \<Rightarrow> scene \<Rightarrow> real" where
  "inner_right bd sc =
     r_x (getViewportRect sc) + r_width (getViewportRect sc) - in_right (insets_of bd sc)"

definition inner_top :: "binding \<Rightarrow> scene \<Rightarrow> real" where
  "inner_top bd sc = r_y (getViewportRect sc) + in_top (insets_of bd sc)"

definition inner_bottom :: "binding \<Rightarrow> scene \<Rightarrow> real" where
  "inner_bottom bd sc =
     r_y (getViewportRect sc) + r_height (getViewportRect sc) - in_bottom (insets_of bd sc)"

definition anchored_x :: "binding \<Rightarrow> scene \<Rightarrow> target \<Rightarrow> real" where
  "anchored_x bd sc t =
     (case horizontal_of (b_anchor bd) of
        AtLeft \<Rightarrow> inner_left bd sc + fst (getDisplaySize t) / 2
      | HCentered \<Rightarrow> inner_left bd sc + max 0 (inner_right bd sc - inner_left bd sc) / 2
      | AtRight \<Rightarrow> inner_right bd sc - fst (getDisplaySize t) / 2)
     + b_offsetX bd"

definition anchored_y :: "binding \<Rightarrow> scene \<Rightarrow> target \<Rightarrow> real" where
  "anchored_y bd sc t =
     (case vertical_of (b_anchor bd) of
        AtTop \<Rightarrow> inner_top bd sc + snd (getDisplaySize t) / 2
      | VCentered \<Rightarrow> inner_top bd sc + max 0 (inner_bottom bd sc - inner_top bd sc) / 2
      | AtBottom \<Rightarrow> inner_bottom bd sc - snd (getDisplaySize t) / 2)
     + b_offsetY bd"

text \<open>
  An 800 by 600 viewport without insets, a target displayed at 100 by 50, and the
  options that anchor it at the top right with offset \<open>(-10, 10)\<close>.
\<close>

definition scene_800x600 :: scene where
  "scene_800x600 =
     \<lparr>scale_width = 800, scale_height = 600, viewPort = None,
      canvas_rect = Some (800, 600), css_insets = Some zeroInsets\<rparr>"

definition target_100x50 :: target where
  "target_100x50 =
     \<lparr>t_scene = None, t_displayWidth = Some 100, t_displayHeight = Some 50, t_width = None,
      t_height = None, t_bounds = None, t_setPosition = True, t_position = (0, 0)\<rparr>"

definition top_right_options :: AnchorToViewportOptions where
  "top_right_options =
     \<lparr>a_scene = Some scene_800x600, a_anchor = Some TopRight,
      a_offsetX = Some (- 10), a_offsetY = Some 10, a_useSafeArea = None, a_safeArea = None,
      a_autoResize = None\<rparr>"

definition top_right_binding :: binding where
  "top_right_binding =
     \<lparr>b_anchor = TopRight, b_offsetX = - 10, b_offsetY = 10, b_useSafeArea = True,
      b_safeArea = None, b_autoResize = True, b_destroyed = False\<rparr>"
section \<open>Properties of numbers\<close>

lemma Math_max_NaN: "Math_max x y = NaN \<longleftrightarrow> x = NaN \<or> y = NaN"
  by (cases x; cases y) simp_all

lemma Math_min_NaN: "Math_min x y = NaN \<longleftrightarrow> x = NaN \<or> y = NaN"
  by (cases x; cases y) simp_all

lemma Clamp_NaN: "Clamp v lo hi = NaN \<longleftrightarrow> v = NaN \<or> lo = NaN \<or> hi = NaN"
  by (auto simp add: Clamp_def Math_max_NaN Math_min_NaN)

lemma Math_max_zero_nonneg: "Math_max (Fin 0) x \<noteq> NaN \<Longrightarrow> Fin 0 \<le> Math_max (Fin 0) x"
  by (cases x) simp_all

lemma Math_max_one_ge: "Math_max (Fin 1) x \<noteq> NaN \<Longrightarrow> Fin 1 \<le> Math_max (Fin 1) x"
  by (cases x) simp_all

lemma Clamp_range:
  assumes "v \<noteq> NaN" "Fin 0 \<le> hi"
  shows "Fin 0 \<le> Clamp v (Fin 0) hi \<and> Clamp v (Fin 0) hi \<le> hi"
  using assms by (cases v; cases hi) (simp_all add: Clamp_def)

lemma Clamp_below: "v < Fin 0 \<Longrightarrow> Fin 0 \<le> hi \<Longrightarrow> Clamp v (Fin 0) hi = Fin 0"
  by (cases v; cases hi) (simp_all add: Clamp_def)

lemma Clamp_above: "hi < v \<Longrightarrow> Fin 0 \<le> hi \<Longrightarrow> Clamp v (Fin 0) hi = hi"
  by (cases v; cases hi) (simp_all add: Clamp_def)

lemma Clamp_inside: "Fin 0 \<le> v \<Longrightarrow> v \<le> hi \<Longrightarrow> Clamp v (Fin 0) hi = v"
  by (cases v; cases hi) (simp_all add: Clamp_def)

lemma Clamp_idem:
  "Clamp (Clamp v (Fin 0) (Math_max (Fin 0) x)) (Fin 0) (Math_max (Fin 0) x) =
   Clamp v (Fin 0) (Math_max (Fin 0) x)"
  by (cases v; cases x) (simp_all add: Clamp_def)


lemma le_not_NaN: "x \<le> y \<Longrightarrow> x \<noteq> NaN \<and> y \<noteq> (NaN :: number)"
  by (cases x; cases y) simp_all

lemma less_not_NaN: "x < y \<Longrightarrow> x \<noteq> NaN \<and> y \<noteq> (NaN :: number)"
  by (cases x; cases y) simp_all


lemma strict_eq_eq: "strict_eq x y \<Longrightarrow> x = y"
  by (simp add: strict_eq_def)

lemma isFinite_Fin: "isFinite x \<longleftrightarrow> (\<exists>a. x = Fin a)"
  by (cases x) simp_all

section \<open>Properties of the scroll container\<close>

lemma updateContentMetrics_eq:
  "updateContentMetrics s =
     s\<lparr>contentMinY := fst (measured (content s)), contentHeight := snd (measured (content s))\<rparr>"
  by (simp add: updateContentMetrics_def measured_def split: prod.splits)

lemma redrawScrollbar_eq: "redrawScrollbar s = s\<lparr>scrollbar := drawn_scrollbar s\<rparr>"
  by (simp add: drawn_scrollbar_def redrawScrollbar_def Let_def)

lemma drawn_scrollbar_cong:
  assumes "scrollbarEnabled s = scrollbarEnabled t" "c_width s = c_width t" "c_height s = c_height t"
    "paddingLeft s = paddingLeft t" "paddingRight s = paddingRight t"
    "paddingTop s = paddingTop t" "paddingBottom s = paddingBottom t"
    "scrollbarWidth s = scrollbarWidth t" "scrollbarMinThumbHeight s = scrollbarMinThumbHeight t"
    "contentHeight s = contentHeight t" "scrollY s = scrollY t"
  shows "drawn_scrollbar s = drawn_scrollbar t"
  using assms
  by (simp add: drawn_scrollbar_def redrawScrollbar_def Let_def getMaxScrollY_def
      getViewportHeight_def getViewportTop_def getViewportLeft_def getViewportWidth_def)



lemma Math_max_Fin: "Math_max (Fin a) (Fin b) = Fin (max a b)"
  by (simp add: max_def)

lemma minus_Fin: "Fin a - Fin b = Fin (a - b)"
  by (simp add: minus_number_def)





lemmas layout_steps =
  layout_def redrawScrollbar_eq updateContentMetrics_eq applyScroll_def
  redrawMaskAndWheelZone_def redrawPanel_def setSize_def Let_def

lemma layout_config:
  "c_width (layout s) = c_width s"
  "c_height (layout s) = c_height s"
  "paddingLeft (layout s) = paddingLeft s"
  "paddingRight (layout s) = paddingRight s"
  "paddingTop (layout s) = paddingTop s"
  "paddingBottom (layout s) = paddingBottom s"
  "strokeThickness (layout s) = strokeThickness s"
  "cornerRadius (layout s) = cornerRadius s"
  "scrollbarEnabled (layout s) = scrollbarEnabled s"
  "scrollbarWidth (layout s) = scrollbarWidth s"
  "scrollbarMinThumbHeight (layout s) = scrollbarMinThumbHeight s"
  "wheelEnabled (layout s) = wheelEnabled s"
  "wheelStep (layout s) = wheelStep s"
  "content (layout s) = content s"
  "c_position (layout s) = c_position s"
  "emitted (layout s) = emitted s"
  "scroll.more (layout s) = scroll.more s"
  by (simp_all add: layout_steps)

lemma layout_metrics:
  "contentMinY (layout s) = fst (measured (content s))"
  "contentHeight (layout s) = snd (measured (content s))"
  by (simp_all add: layout_steps)

lemma layout_scrollY: "scrollY (layout s) = laid_scrollY s"
  by (simp add: layout_steps laid_scrollY_def getMaxScrollY_def getViewportHeight_def)

lemma layout_drawn:
  "c_size (layout s) = (c_width s, c_height s)"
  "panel (layout s) = panel (redrawPanel s)"
  "maskGraphics (layout s) = maskGraphics (redrawMaskAndWheelZone s)"
  "wheelZone_position (layout s) = wheelZone_position (redrawMaskAndWheelZone s)"
  "wheelZone_size (layout s) = wheelZone_size (redrawMaskAndWheelZone s)"
  by (simp_all add: layout_steps getViewportHeight_def getViewportTop_def
      getViewportLeft_def getViewportWidth_def)

lemma layout_content_position:
  "content_position (layout s) =
     (getViewportLeft s, getViewportTop s - fst (measured (content s)) - laid_scrollY s)"
  by (simp add: layout_steps laid_scrollY_def getMaxScrollY_def getViewportHeight_def
      getViewportTop_def getViewportLeft_def)

lemma layout_scrollbar:
  "scrollbar (layout s) =
     drawn_scrollbar (s\<lparr>contentHeight := snd (measured (content s)), scrollY := laid_scrollY s\<rparr>)"
proof -
  have upd: "\<And>X y. drawn_scrollbar (X\<lparr>scrollbar := y\<rparr>) = drawn_scrollbar X"
    by (rule drawn_scrollbar_cong) simp_all
  have "scrollbar (layout s) = drawn_scrollbar (layout s)"
    unfolding layout_def Let_def redrawScrollbar_eq
    by (simp add: upd)
  also have "\<dots> = drawn_scrollbar
      (s\<lparr>contentHeight := snd (measured (content s)), scrollY := laid_scrollY s\<rparr>)"
    by (rule drawn_scrollbar_cong) (simp_all add: layout_config layout_metrics layout_scrollY)
  finally show ?thesis .
qed

lemma viewport_layout:
  "getViewportLeft (layout s) = getViewportLeft s"
  "getViewportTop (layout s) = getViewportTop s"
  "getViewportWidth (layout s) = getViewportWidth s"
  "getViewportHeight (layout s) = getViewportHeight s"
  by (simp_all add: getViewportHeight_def getViewportTop_def getViewportLeft_def
      getViewportWidth_def layout_config)

lemma getMaxScrollY_layout:
  "getMaxScrollY (layout s) =
     Math_max (Fin 0) (snd (measured (content s)) - getViewportHeight s)"
  by (simp add: getMaxScrollY_def layout_metrics viewport_layout)

lemma laid_scrollY_layout: "laid_scrollY (layout s) = laid_scrollY s"
  by (simp add: laid_scrollY_def layout_config layout_scrollY [unfolded laid_scrollY_def]
      viewport_layout Clamp_idem)

text \<open>
  C7. \<open>layout()\<close> is idempotent: a second call right after the first leaves the whole
  state as the first left it, so the scroll offset, \<open>contentMinY\<close>, \<open>contentHeight\<close>
  and every drawn rectangle of the scrollbar are the same. This holds whatever numbers
  the state holds.
\<close>

theorem layout_idempotent: "layout (layout s) = layout s"
proof (rule scroll.equality)
  show "panel (layout (layout s)) = panel (layout s)"
    by (simp add: layout_drawn redrawPanel_def Let_def layout_config)
  show "maskGraphics (layout (layout s)) = maskGraphics (layout s)"
    by (simp add: layout_drawn redrawMaskAndWheelZone_def Let_def layout_config viewport_layout)
  show "wheelZone_position (layout (layout s)) = wheelZone_position (layout s)"
    by (simp add: layout_drawn redrawMaskAndWheelZone_def Let_def layout_config viewport_layout)
  show "wheelZone_size (layout (layout s)) = wheelZone_size (layout s)"
    by (simp add: layout_drawn redrawMaskAndWheelZone_def Let_def layout_config viewport_layout)
  show "scrollbar (layout (layout s)) = scrollbar (layout s)"
    unfolding layout_scrollbar
    by (rule drawn_scrollbar_cong)
      (simp_all add: layout_config laid_scrollY_layout)
  show "content_position (layout (layout s)) = content_position (layout s)"
    by (simp add: layout_content_position viewport_layout layout_config laid_scrollY_layout)
qed (simp_all add: layout_config layout_metrics layout_scrollY laid_scrollY_layout layout_drawn)

lemma viewportHeight_finite:
  assumes "isFinite (c_height s)" "isFinite (paddingTop s)" "isFinite (paddingBottom s)"
  shows "\<exists>v. getViewportHeight s = Fin v \<and> 1 \<le> v"
proof -
  from assms obtain h t b where "c_height s = Fin h" "paddingTop s = Fin t"
    "paddingBottom s = Fin b"
    by (auto simp add: isFinite_Fin)
  then show ?thesis
    by (simp add: getViewportHeight_def minus_Fin Math_max_Fin del: Math_max.simps)
qed



lemma setScrollY_unchanged:
  "strict_eq (Clamp v (Fin 0) (getMaxScrollY s)) (scrollY s) \<Longrightarrow> setScrollY v s = s"
  by (simp add: setScrollY_def)

lemma setScrollY_changed:
  assumes "\<not> strict_eq (Clamp v (Fin 0) (getMaxScrollY s)) (scrollY s)"
  shows "setScrollY v s =
     s\<lparr>scrollY := Clamp v (Fin 0) (getMaxScrollY s),
       content_position :=
         (getViewportLeft s,
          getViewportTop s - contentMinY s - Clamp v (Fin 0) (getMaxScrollY s)),
       scrollbar := drawn_scrollbar (s\<lparr>scrollY := Clamp v (Fin 0) (getMaxScrollY s)\<rparr>),
       emitted := emitted s @ [(Clamp v (Fin 0) (getMaxScrollY s), getMaxScrollY s)]\<rparr>"
proof -
  have upd: "\<And>X y. drawn_scrollbar (X\<lparr>content_position := y\<rparr>) = drawn_scrollbar X"
    by (rule drawn_scrollbar_cong) simp_all
  show ?thesis
    using assms
    by (simp add: setScrollY_def Let_def redrawScrollbar_eq applyScroll_def
        emit_scroll_changed_def upd getMaxScrollY_def getViewportHeight_def
        getViewportTop_def getViewportLeft_def)
qed

lemma setScrollY_scrollY: "scrollY (setScrollY v s) = Clamp v (Fin 0) (getMaxScrollY s)"
proof (cases "strict_eq (Clamp v (Fin 0) (getMaxScrollY s)) (scrollY s)")
  case True
  then show ?thesis
    using strict_eq_eq [OF True] by (simp add: setScrollY_unchanged)
next
  case False
  then show ?thesis by (simp add: setScrollY_changed)
qed

lemma setScrollY_max: "getMaxScrollY (setScrollY v s) = getMaxScrollY s"
  by (cases "strict_eq (Clamp v (Fin 0) (getMaxScrollY s)) (scrollY s)")
    (simp_all add: setScrollY_unchanged setScrollY_changed getMaxScrollY_def
      getViewportHeight_def)

lemma getMaxScrollY_nonneg: "getMaxScrollY s \<noteq> NaN \<Longrightarrow> Fin 0 \<le> getMaxScrollY s"
  unfolding getMaxScrollY_def by (rule Math_max_zero_nonneg)

text \<open>
  C3, as amended. \<open>setScrollY(v)\<close> leaves the scroll offset at
  \<open>Clamp(v, 0, getMaxScrollY())\<close> and does not change \<open>getMaxScrollY()\<close>. When neither
  \<open>v\<close> nor \<open>getMaxScrollY()\<close> is \<open>NaN\<close>, that is \<open>v\<close> clamped into
  \<open>[0, getMaxScrollY()]\<close>: the nearest bound when \<open>v\<close> is outside, \<open>v\<close> itself
  otherwise. When \<open>v\<close> or \<open>getMaxScrollY()\<close> is \<open>NaN\<close>, the offset becomes \<open>NaN\<close>.
  When the clamped value \<open>===\<close> the current offset, the state is unchanged and nothing is
  emitted. Otherwise, which includes every clamped value that is \<open>NaN\<close>, the content is
  moved, the scrollbar is drawn again, and one \<open>scroll-changed\<close> event carrying the new
  offset and the maximum is emitted; nothing else changes.
\<close>

theorem setScrollY_clamps:
  "getScrollY (setScrollY v s) = Clamp v (Fin 0) (getMaxScrollY s) \<and>
   getMaxScrollY (setScrollY v s) = getMaxScrollY s \<and>
   (v \<noteq> NaN \<and> getMaxScrollY s \<noteq> NaN \<longrightarrow>
      Fin 0 \<le> getScrollY (setScrollY v s) \<and>
      getScrollY (setScrollY v s) \<le> getMaxScrollY s) \<and>
   (v < Fin 0 \<and> getMaxScrollY s \<noteq> NaN \<longrightarrow> getScrollY (setScrollY v s) = Fin 0) \<and>
   (getMaxScrollY s < v \<longrightarrow> getScrollY (setScrollY v s) = getMaxScrollY s) \<and>
   (Fin 0 \<le> v \<and> v \<le> getMaxScrollY s \<longrightarrow> getScrollY (setScrollY v s) = v) \<and>
   (v = NaN \<or> getMaxScrollY s = NaN \<longrightarrow> getScrollY (setScrollY v s) = NaN) \<and>
   (strict_eq (Clamp v (Fin 0) (getMaxScrollY s)) (scrollY s) \<longrightarrow> setScrollY v s = s) \<and>
   (\<not> strict_eq (Clamp v (Fin 0) (getMaxScrollY s)) (scrollY s) \<longrightarrow>
      setScrollY v s =
        s\<lparr>scrollY := Clamp v (Fin 0) (getMaxScrollY s),
          content_position :=
            (getViewportLeft s,
             getViewportTop s - contentMinY s - Clamp v (Fin 0) (getMaxScrollY s)),
          scrollbar := drawn_scrollbar (s\<lparr>scrollY := Clamp v (Fin 0) (getMaxScrollY s)\<rparr>),
          emitted := emitted s @ [(Clamp v (Fin 0) (getMaxScrollY s), getMaxScrollY s)]\<rparr>)"
proof (intro conjI impI)
  show "getScrollY (setScrollY v s) = Clamp v (Fin 0) (getMaxScrollY s)"
    by (simp add: getScrollY_def setScrollY_scrollY)
  show "getMaxScrollY (setScrollY v s) = getMaxScrollY s"
    by (rule setScrollY_max)
next
  assume a: "v \<noteq> NaN \<and> getMaxScrollY s \<noteq> NaN"
  then have "Fin 0 \<le> getMaxScrollY s"
    by (simp add: getMaxScrollY_nonneg)
  with a have "Fin 0 \<le> Clamp v (Fin 0) (getMaxScrollY s) \<and>
      Clamp v (Fin 0) (getMaxScrollY s) \<le> getMaxScrollY s"
    by (intro Clamp_range) simp_all
  then show "Fin 0 \<le> getScrollY (setScrollY v s)"
    "getScrollY (setScrollY v s) \<le> getMaxScrollY s"
    by (simp_all add: getScrollY_def setScrollY_scrollY)
next
  assume "v < Fin 0 \<and> getMaxScrollY s \<noteq> NaN"
  then show "getScrollY (setScrollY v s) = Fin 0"
    by (simp add: getScrollY_def setScrollY_scrollY Clamp_below getMaxScrollY_nonneg)
next
  assume a: "getMaxScrollY s < v"
  then have "getMaxScrollY s \<noteq> NaN" by (simp add: less_not_NaN)
  with a show "getScrollY (setScrollY v s) = getMaxScrollY s"
    by (simp add: getScrollY_def setScrollY_scrollY Clamp_above getMaxScrollY_nonneg)
next
  assume "Fin 0 \<le> v \<and> v \<le> getMaxScrollY s"
  then show "getScrollY (setScrollY v s) = v"
    by (simp add: getScrollY_def setScrollY_scrollY Clamp_inside)
next
  assume "v = NaN \<or> getMaxScrollY s = NaN"
  then show "getScrollY (setScrollY v s) = NaN"
    by (auto simp add: getScrollY_def setScrollY_scrollY Clamp_NaN)
next
  assume "strict_eq (Clamp v (Fin 0) (getMaxScrollY s)) (scrollY s)"
  then show "setScrollY v s = s" by (rule setScrollY_unchanged)
next
  assume "\<not> strict_eq (Clamp v (Fin 0) (getMaxScrollY s)) (scrollY s)"
  then show "setScrollY v s =
        s\<lparr>scrollY := Clamp v (Fin 0) (getMaxScrollY s),
          content_position :=
            (getViewportLeft s,
             getViewportTop s - contentMinY s - Clamp v (Fin 0) (getMaxScrollY s)),
          scrollbar := drawn_scrollbar (s\<lparr>scrollY := Clamp v (Fin 0) (getMaxScrollY s)\<rparr>),
          emitted := emitted s @ [(Clamp v (Fin 0) (getMaxScrollY s), getMaxScrollY s)]\<rparr>"
    by (rule setScrollY_changed)
qed

lemma setScrollY_frame:
  "c_width (setScrollY v s) = c_width s"
  "c_height (setScrollY v s) = c_height s"
  "paddingLeft (setScrollY v s) = paddingLeft s"
  "paddingRight (setScrollY v s) = paddingRight s"
  "paddingTop (setScrollY v s) = paddingTop s"
  "paddingBottom (setScrollY v s) = paddingBottom s"
  "scrollbarEnabled (setScrollY v s) = scrollbarEnabled s"
  "scrollbarWidth (setScrollY v s) = scrollbarWidth s"
  "scrollbarMinThumbHeight (setScrollY v s) = scrollbarMinThumbHeight s"
  "content (setScrollY v s) = content s"
  "contentMinY (setScrollY v s) = contentMinY s"
  "contentHeight (setScrollY v s) = contentHeight s"
  by (cases "strict_eq (Clamp v (Fin 0) (getMaxScrollY s)) (scrollY s)";
      simp add: setScrollY_unchanged setScrollY_changed)+

lemma viewport_setScrollY:
  "getViewportHeight (setScrollY v s) = getViewportHeight s"
  "getViewportWidth (setScrollY v s) = getViewportWidth s"
  "getViewportTop (setScrollY v s) = getViewportTop s"
  "getViewportLeft (setScrollY v s) = getViewportLeft s"
  by (simp_all add: getViewportHeight_def getViewportWidth_def getViewportTop_def
      getViewportLeft_def setScrollY_frame)

lemma constructed_content: "content (constructed_fields opts) = []"
  by (simp add: constructed_fields_def)

lemma constructed_scrollY: "scrollY (constructed_fields opts) = Fin 0"
  by (simp add: constructed_fields_def)

lemma constructed_emitted: "emitted (constructed_fields opts) = []"
  by (simp add: constructed_fields_def)

lemma constructed_viewportHeight:
  "getViewportHeight (constructed_fields opts) =
     Math_max (Fin 1)
       (dflt (Fin 220) (o_height opts) - dflt (Fin 10) (o_paddingTop opts)
        - dflt (Fin 10) (o_paddingBottom opts))"
  by (simp add: getViewportHeight_def constructed_fields_def)

lemma measured_Nil: "measured [] = (Fin 0, Fin 0)"
  by (simp add: measured_def)

lemma empty_max:
  "Math_max (Fin 1) x \<noteq> NaN \<Longrightarrow> Math_max (Fin 0) (Fin 0 - Math_max (Fin 1) x) = Fin 0"
  by (cases x) (simp_all add: minus_number_def)

lemma empty_max_NaN:
  "Math_max (Fin 1) x = NaN \<Longrightarrow> Math_max (Fin 0) (Fin 0 - Math_max (Fin 1) x) = NaN"
  by (cases x) (simp_all add: minus_number_def)

lemma Clamp_zero: "v \<noteq> NaN \<Longrightarrow> Clamp v (Fin 0) (Fin 0) = Fin 0"
  by (cases v) (simp_all add: Clamp_def)

lemma laid_out_empty:
  assumes "getViewportHeight (constructed_fields opts) \<noteq> NaN"
  shows "getMaxScrollY (layout (constructed_fields opts)) = Fin 0"
    and "scrollY (layout (constructed_fields opts)) = Fin 0"
proof -
  show m: "getMaxScrollY (layout (constructed_fields opts)) = Fin 0"
    using assms
    by (simp add: getMaxScrollY_layout constructed_content measured_Nil)
      (simp add: getViewportHeight_def empty_max)
  show "scrollY (layout (constructed_fields opts)) = Fin 0"
    using m
    by (simp add: layout_scrollY laid_scrollY_def constructed_scrollY
        getMaxScrollY_layout [symmetric] Clamp_zero)
qed

lemma constructor_result:
  assumes "dflt (Fin 0) (o_initialScrollY opts) \<noteq> NaN"
    "getViewportHeight (constructed_fields opts) \<noteq> NaN"
  shows "DebugScrollContainer opts = layout (constructed_fields opts)"
  unfolding DebugScrollContainer_def
  using assms
  by (intro setScrollY_unchanged) (simp add: laid_out_empty Clamp_zero strict_eq_def)

text \<open>
  C10, as amended. When the constructor returns the content list is empty. If neither
  \<open>initialScrollY\<close> nor the viewport height is \<open>NaN\<close>, then \<open>getMaxScrollY()\<close> is \<open>0\<close>,
  the scroll offset is \<open>0\<close> whatever \<open>initialScrollY\<close> was, and nothing was emitted. The
  viewport height is not \<open>NaN\<close> when the height and the two vertical paddings are finite.
  If \<open>initialScrollY\<close> or the viewport height is \<open>NaN\<close>, the scroll offset is \<open>NaN\<close>.
\<close>

theorem constructor_scrollY_zero:
  "(dflt (Fin 0) (o_initialScrollY opts) \<noteq> NaN \<and>
    getViewportHeight (constructed_fields opts) \<noteq> NaN \<longrightarrow>
      getScrollY (DebugScrollContainer opts) = Fin 0 \<and>
      getMaxScrollY (DebugScrollContainer opts) = Fin 0 \<and>
      emitted (DebugScrollContainer opts) = []) \<and>
   (isFinite (dflt (Fin 220) (o_height opts)) \<and>
    isFinite (dflt (Fin 10) (o_paddingTop opts)) \<and>
    isFinite (dflt (Fin 10) (o_paddingBottom opts)) \<longrightarrow>
      getViewportHeight (constructed_fields opts) \<noteq> NaN) \<and>
   (dflt (Fin 0) (o_initialScrollY opts) = NaN \<or>
    getViewportHeight (constructed_fields opts) = NaN \<longrightarrow>
      getScrollY (DebugScrollContainer opts) = NaN) \<and>
   content (DebugScrollContainer opts) = []"
proof (intro conjI impI)
  assume a: "dflt (Fin 0) (o_initialScrollY opts) \<noteq> NaN \<and>
    getViewportHeight (constructed_fields opts) \<noteq> NaN"
  then have r: "DebugScrollContainer opts = layout (constructed_fields opts)"
    by (simp add: constructor_result)
  from a show "getScrollY (DebugScrollContainer opts) = Fin 0"
    "getMaxScrollY (DebugScrollContainer opts) = Fin 0"
    "emitted (DebugScrollContainer opts) = []"
    by (simp_all add: r getScrollY_def laid_out_empty layout_config constructed_emitted)
next
  assume "isFinite (dflt (Fin 220) (o_height opts)) \<and>
    isFinite (dflt (Fin 10) (o_paddingTop opts)) \<and>
    isFinite (dflt (Fin 10) (o_paddingBottom opts))"
  then have "\<exists>v. getViewportHeight (constructed_fields opts) = Fin v \<and> 1 \<le> v"
    by (intro viewportHeight_finite) (simp_all add: constructed_fields_def)
  then show "getViewportHeight (constructed_fields opts) \<noteq> NaN" by auto
next
  assume a: "dflt (Fin 0) (o_initialScrollY opts) = NaN \<or>
    getViewportHeight (constructed_fields opts) = NaN"
  have "getViewportHeight (constructed_fields opts) = NaN \<Longrightarrow>
      getMaxScrollY (layout (constructed_fields opts)) = NaN"
    by (simp add: getMaxScrollY_layout constructed_content measured_Nil minus_number_def)
  with a show "getScrollY (DebugScrollContainer opts) = NaN"
    by (auto simp add: DebugScrollContainer_def getScrollY_def setScrollY_scrollY Clamp_NaN)
next
  show "content (DebugScrollContainer opts) = []"
    by (simp add: DebugScrollContainer_def setScrollY_frame layout_config constructed_content)
qed

theorem constructor_scrollY_zero_witness:
  "dflt (Fin 0) (o_initialScrollY (no_options\<lparr>o_initialScrollY := Some (Fin 150)\<rparr>)) \<noteq> NaN \<and>
   isFinite (dflt (Fin 220) (o_height (no_options\<lparr>o_initialScrollY := Some (Fin 150)\<rparr>))) \<and>
   getViewportHeight (constructed_fields (no_options\<lparr>o_initialScrollY := Some (Fin 150)\<rparr>))
     = Fin 200 \<and>
   getScrollY (DebugScrollContainer (no_options\<lparr>o_initialScrollY := Some (Fin 150)\<rparr>)) = Fin 0 \<and>
   getScrollY (DebugScrollContainer (no_options\<lparr>o_height := Some NaN\<rparr>)) = NaN"
  using constructor_scrollY_zero [of "no_options\<lparr>o_initialScrollY := Some (Fin 150)\<rparr>"]
    constructor_scrollY_zero [of "no_options\<lparr>o_height := Some NaN\<rparr>"]
  by (simp add: constructed_viewportHeight no_options_def dflt_def minus_number_def)

text \<open>
  Built with \<open>initialScrollY: NaN\<close> and nothing else, the container has the scroll offset
  \<open>NaN\<close>, not \<open>0\<close>.
\<close>

theorem constructor_NaN_counterexample:
  "getScrollY (DebugScrollContainer (no_options\<lparr>o_initialScrollY := Some NaN\<rparr>)) = NaN \<and>
   getScrollY (DebugScrollContainer (no_options\<lparr>o_initialScrollY := Some NaN\<rparr>)) \<noteq> Fin 0"
  by code_simp



















lemma ten_items_default_fields:
  "getMaxScrollY ten_items_default = Fin 290"
  "scrollY ten_items_default = Fin 0"
  "emitted ten_items_default = []"
  by code_simp+

theorem setScrollY_clamps_witness:
  "Fin 1000 \<noteq> NaN \<and> getMaxScrollY ten_items_default = Fin 290 \<and>
   getScrollY (setScrollY (Fin 1000) ten_items_default) = Fin 290 \<and>
   emitted (setScrollY (Fin 1000) ten_items_default) = [(Fin 290, Fin 290)] \<and>
   getScrollY (setScrollY (Fin (- 5)) ten_items_default) = Fin 0 \<and>
   setScrollY (Fin (- 5)) ten_items_default = ten_items_default \<and>
   getScrollY (setScrollY (Fin 100) ten_items_default) = Fin 100 \<and>
   getScrollY (setScrollY NaN ten_items_default) = NaN"
  using setScrollY_clamps [of "Fin 1000" ten_items_default]
    setScrollY_clamps [of "Fin (- 5)" ten_items_default]
    setScrollY_clamps [of "Fin 100" ten_items_default]
    setScrollY_clamps [of NaN ten_items_default]
  by (simp add: ten_items_default_fields Clamp_def getScrollY_def strict_eq_def)

text \<open>
  \<open>setScrollY(NaN)\<close> on the container with the ten items: the offset becomes \<open>NaN\<close>,
  which is not in \<open>[0, 290]\<close>, and the event carries \<open>NaN\<close>.
\<close>

theorem setScrollY_NaN_counterexample:
  "getMaxScrollY ten_items_default = Fin 290 \<and>
   getScrollY (setScrollY NaN ten_items_default) = NaN \<and>
   \<not> Fin 0 \<le> getScrollY (setScrollY NaN ten_items_default) \<and>
   \<not> getScrollY (setScrollY NaN ten_items_default) \<le> getMaxScrollY ten_items_default \<and>
   emitted (setScrollY NaN ten_items_default) = [(NaN, Fin 290)]"
  by code_simp


theorem layout_idempotent_witness:
  "layout (layout ten_items_default) = layout ten_items_default"
  by (rule layout_idempotent)


section \<open>Properties of the scheduler\<close>

lemma flushNow_guard:
  "destroyed s \<or> dirty s = [] \<or> isFlushing s \<Longrightarrow> flushNow n b s = Some (Returned, s)"
  by (cases n) auto

text \<open>The frame event and \<open>flush()\<close> run the same pass.\<close>

lemma onFlushEvent_eq: "onFlushEvent n b s = flushNow n b s"
  by (simp add: onFlushEvent_def flushNow_guard)

lemma flush_eq: "flush n b s = flushNow n b s"
  by (simp add: flush_def)

lemma exec_call_no_flush:
  "c \<noteq> Flush \<Longrightarrow> exec_call fl c s = exec_call fl' c s"
  by (cases c) simp_all

lemma exec_call_flushing:
  assumes "isFlushing s"
  shows "\<exists>out s'. exec_call (flushNow n b) c s = Some (out, s') \<and> isFlushing s' \<and>
           calls s' = calls s \<and> (destroyed s \<longrightarrow> destroyed s') \<and>
           (\<not> aborts c \<longrightarrow> out = Returned \<and> destroyed s' = destroyed s)"
  using assms
  by (cases c)
    (simp_all add: flushNow_guard markDirty_def markDirtyMany_def removeTarget_def
      clearDirty_def destroyScheduler_def)

lemma exec_layout_flushing:
  assumes "isFlushing s"
  shows "\<exists>out s'. exec_layout (flushNow n b) cs s = Some (out, s') \<and> isFlushing s' \<and>
           calls s' = calls s \<and> (destroyed s \<longrightarrow> destroyed s') \<and>
           (runs_through cs \<longrightarrow> out = Returned \<and> destroyed s' = destroyed s)"
  using assms
proof (induction cs arbitrary: s)
  case Nil
  then show ?case by (simp add: runs_through_def)
next
  case (Cons c cs)
  obtain out s1 where c: "exec_call (flushNow n b) c s = Some (out, s1)" "isFlushing s1"
    "calls s1 = calls s" "destroyed s \<longrightarrow> destroyed s1"
    "\<not> aborts c \<longrightarrow> out = Returned \<and> destroyed s1 = destroyed s"
    using exec_call_flushing [OF Cons.prems] by blast
  show ?case
  proof (cases out)
    case Threw
    with c show ?thesis by (auto simp add: runs_through_def)
  next
    case Returned
    obtain out' s' where r: "exec_layout (flushNow n b) cs s1 = Some (out', s')" "isFlushing s'"
      "calls s' = calls s1" "destroyed s1 \<longrightarrow> destroyed s'"
      "runs_through cs \<longrightarrow> out' = Returned \<and> destroyed s' = destroyed s1"
      using Cons.IH [OF c(2)] by blast
    with c Returned show ?thesis by (auto simp add: runs_through_def)
  qed
qed

lemma run_queue_flushing:
  assumes "isFlushing s"
  shows "\<exists>k out s'. run_queue (flushNow n b) b q s = Some (out, s') \<and> isFlushing s' \<and>
           calls s' = calls s @ take k q \<and> k \<le> length q \<and>
           (\<not> destroyed s \<and> q \<noteq> [] \<longrightarrow> 0 < k)"
  using assms
proof (induction q arbitrary: s)
  case Nil
  then show ?case by simp
next
  case (Cons t q)
  show ?case
  proof (cases "destroyed s")
    case True
    with Cons.prems show ?thesis by (intro exI [of _ 0]) simp
  next
    case False
    let ?s0 = "s\<lparr>calls := calls s @ [t]\<rparr>"
    have "isFlushing ?s0" using Cons.prems by simp
    then obtain out s1 where l: "exec_layout (flushNow n b) (b t) ?s0 = Some (out, s1)"
      "isFlushing s1" "calls s1 = calls ?s0"
      using exec_layout_flushing by blast
    show ?thesis
    proof (cases out)
      case Threw
      with l False show ?thesis by (intro exI [of _ "Suc 0"]) simp
    next
      case Returned
      obtain k out' s' where r: "run_queue (flushNow n b) b q s1 = Some (out', s')"
        "isFlushing s'" "calls s' = calls s1 @ take k q" "k \<le> length q"
        using Cons.IH [OF l(2)] by blast
      with l False Returned show ?thesis by (intro exI [of _ "Suc k"]) simp
    qed
  qed
qed

lemma flushNow_calls:
  "\<exists>k out s'. flushNow (Suc n) b s = Some (out, s') \<and> calls s' = calls s @ take k (dirty s)"
proof (cases "destroyed s \<or> dirty s = [] \<or> isFlushing s")
  case True
  then show ?thesis by (intro exI [of _ 0]) auto
next
  case False
  let ?s0 = "s\<lparr>isFlushing := True, dirty := []\<rparr>"
  have "isFlushing ?s0" by simp
  then obtain k out s1 where "run_queue (flushNow n b) b (dirty s) ?s0 = Some (out, s1)"
    "calls s1 = calls ?s0 @ take k (dirty s)"
    using run_queue_flushing by blast
  with False show ?thesis by (cases out) auto
qed

lemma exec_layout_strip:
  assumes "isFlushing s"
  shows "exec_layout (flushNow n b) cs s = exec_layout fl' (filter (\<lambda>c. c \<noteq> Flush) cs) s"
  using assms
proof (induction cs arbitrary: s)
  case Nil
  show ?case by simp
next
  case (Cons c cs)
  show ?case
  proof (cases "c = Flush")
    case True
    with Cons show ?thesis by (simp add: flushNow_guard)
  next
    case False
    obtain out s1 where c: "exec_call (flushNow n b) c s = Some (out, s1)" "isFlushing s1"
      using exec_call_flushing [OF Cons.prems] by blast
    moreover have "exec_call fl' c s = exec_call (flushNow n b) c s"
      using False by (rule exec_call_no_flush)
    ultimately show ?thesis
      using False Cons.IH [OF c(2)] by (cases out) simp_all
  qed
qed

lemma run_queue_strip:
  assumes "isFlushing s"
  shows "run_queue (flushNow n b) b q s = run_queue fl' (strip_flush b) q s"
  using assms
proof (induction q arbitrary: s)
  case Nil
  show ?case by simp
next
  case (Cons t q)
  let ?s0 = "s\<lparr>calls := calls s @ [t]\<rparr>"
  have f: "isFlushing ?s0" using Cons.prems by simp
  obtain out s1 where l: "exec_layout (flushNow n b) (b t) ?s0 = Some (out, s1)" "isFlushing s1"
    using exec_layout_flushing [OF f] by blast
  have "exec_layout fl' (strip_flush b t) ?s0 = Some (out, s1)"
    using exec_layout_strip [OF f, of n b "b t" fl'] l(1) by (simp add: strip_flush_def)
  with l Cons.IH [OF l(2)] show ?case by (cases out) simp_all
qed

lemma flushNow_strip: "flushNow (Suc n) b s = flushNow (Suc m) (strip_flush b) s"
proof -
  let ?s0 = "s\<lparr>isFlushing := True, dirty := []\<rparr>"
  have f: "isFlushing ?s0" by simp
  have "run_queue (flushNow n b) b (dirty s) ?s0 =
        run_queue (flushNow m (strip_flush b)) (strip_flush b) (dirty s) ?s0"
    using f by (rule run_queue_strip)
  then show ?thesis by simp
qed

lemma strip_flush_idem: "strip_flush (strip_flush b) = strip_flush b"
  by (simp add: strip_flush_def)

lemma flushNow_fuel: "flushNow (Suc n) b s = flushNow (Suc 0) b s"
  using flushNow_strip [of n b s 0] flushNow_strip [of 0 b s 0] by simp

lemma exec_layout_marks:
  assumes "isFlushing s" "\<not> destroyed s" "list_all only_marks cs"
  shows "exec_layout (flushNow n b) cs s =
     Some (Returned, s\<lparr>dirty := foldl Set_add (dirty s) (concat (map marks_of cs))\<rparr>)"
  using assms
proof (induction cs arbitrary: s)
  case Nil
  show ?case by simp
next
  case (Cons c cs)
  have rest: "list_all only_marks cs" using Cons.prems by simp
  show ?case
  proof (cases c)
    case (MarkDirty t)
    with Cons.prems Cons.IH [of "markDirty t s", OF _ _ rest] show ?thesis
      by (simp add: markDirty_def)
  next
    case (MarkDirtyMany ts)
    with Cons.prems Cons.IH [of "markDirtyMany ts s", OF _ _ rest] show ?thesis
      by (simp add: markDirtyMany_def)
  next
    case Flush
    with Cons.prems Cons.IH [of s, OF _ _ rest] show ?thesis
      by (simp add: flushNow_guard)
  qed (use Cons.prems in simp_all)
qed

lemma run_queue_marks:
  assumes "isFlushing s" "\<not> destroyed s" "\<forall>t\<in>set q. list_all only_marks (b t)"
  shows "run_queue (flushNow n b) b q s =
     Some (Returned,
       s\<lparr>dirty := foldl Set_add (dirty s) (concat (map (\<lambda>t. concat (map marks_of (b t))) q)),
         calls := calls s @ q\<rparr>)"
  using assms
proof (induction q arbitrary: s)
  case Nil
  show ?case by simp
next
  case (Cons t q)
  let ?s0 = "s\<lparr>calls := calls s @ [t]\<rparr>"
  let ?s1 = "?s0\<lparr>dirty := foldl Set_add (dirty ?s0) (concat (map marks_of (b t)))\<rparr>"
  have l: "exec_layout (flushNow n b) (b t) ?s0 = Some (Returned, ?s1)"
    using Cons.prems by (intro exec_layout_marks) simp_all
  have "run_queue (flushNow n b) b q ?s1 =
     Some (Returned,
       ?s1\<lparr>dirty := foldl Set_add (dirty ?s1) (concat (map (\<lambda>t. concat (map marks_of (b t))) q)),
         calls := calls ?s1 @ q\<rparr>)"
    using Cons.prems by (intro Cons.IH) simp_all
  with l Cons.prems show ?case by simp
qed

lemma flushNow_marks:
  assumes "\<not> destroyed s" "\<not> isFlushing s" "\<forall>t\<in>set (dirty s). list_all only_marks (b t)"
  shows "flushNow (Suc n) b s =
     Some (Returned, s\<lparr>dirty := marked_during b (dirty s), calls := calls s @ dirty s\<rparr>)"
proof (cases "dirty s = []")
  case True
  then show ?thesis by (simp add: marked_during_def)
next
  case False
  let ?s0 = "s\<lparr>isFlushing := True, dirty := []\<rparr>"
  have "run_queue (flushNow n b) b (dirty s) ?s0 =
     Some (Returned,
       ?s0\<lparr>dirty := foldl Set_add (dirty ?s0)
                  (concat (map (\<lambda>t. concat (map marks_of (b t))) (dirty s))),
         calls := calls ?s0 @ dirty s\<rparr>)"
    using assms by (intro run_queue_marks) simp_all
  with assms False show ?thesis by (simp add: marked_during_def)
qed

lemma only_marks_runs_through: "list_all only_marks cs \<Longrightarrow> runs_through cs"
proof (induction cs)
  case Nil
  show ?case by (simp add: runs_through_def)
next
  case (Cons c cs)
  then show ?case by (cases c) (simp_all add: runs_through_def)
qed
lemma set_foldl_Set_add: "set (foldl Set_add xs ms) = set xs \<union> set ms"
  by (induction ms arbitrary: xs) (auto simp add: Set_add_def)

lemma distinct_foldl_Set_add: "distinct xs \<Longrightarrow> distinct (foldl Set_add xs ms)"
  by (induction ms arbitrary: xs) (auto simp add: Set_add_def)

lemma foldl_Set_add_first_marked:
  "distinct xs \<Longrightarrow> foldl Set_add xs ms = first_marked (xs @ ms)"
proof (induction ms rule: rev_induct)
  case Nil
  then show ?case by (simp add: first_marked_def distinct_remdups_id)
next
  case (snoc t ms)
  then show ?case
    by (simp add: first_marked_def Set_add_def set_foldl_Set_add)
qed

lemma mark_all_eq:
  "\<not> destroyed s \<Longrightarrow> mark_all ms s = s\<lparr>dirty := foldl Set_add (dirty s) ms\<rparr>"
  unfolding mark_all_def
proof (induction ms arbitrary: s)
  case Nil
  show ?case by simp
next
  case (Cons t ms)
  have "\<not> destroyed (markDirty t s)" using Cons.prems by (simp add: markDirty_def)
  from Cons.IH [OF this] Cons.prems show ?case by (simp add: markDirty_def)
qed

lemma count_list_distinct:
  "distinct xs \<Longrightarrow> count_list xs t = (if t \<in> set xs then 1 else 0)"
  by (induction xs) auto

lemma run_queue_reaches:
  assumes "isFlushing s" "\<not> destroyed s" "\<forall>u\<in>set q1. runs_through (b u)"
  shows "\<exists>k out s'. run_queue (flushNow n b) b (q1 @ t # q2) s = Some (out, s') \<and>
           calls s' = calls s @ take k (q1 @ t # q2) \<and> length q1 < k \<and>
           (runs_through (b t) \<and> q2 = [] \<longrightarrow> out = Returned)"
  using assms
proof (induction q1 arbitrary: s)
  case Nil
  let ?s0 = "s\<lparr>calls := calls s @ [t]\<rparr>"
  have f: "isFlushing ?s0" using Nil.prems by simp
  obtain out s1 where l: "exec_layout (flushNow n b) (b t) ?s0 = Some (out, s1)"
    "isFlushing s1" "calls s1 = calls ?s0" "runs_through (b t) \<longrightarrow> out = Returned"
    using exec_layout_flushing [OF f] by blast
  show ?case
  proof (cases out)
    case Threw
    with l Nil.prems show ?thesis by (intro exI [of _ "Suc 0"]) simp
  next
    case Returned
    obtain k out' s' where "run_queue (flushNow n b) b q2 s1 = Some (out', s')"
      "calls s' = calls s1 @ take k q2"
      using run_queue_flushing [OF l(2)] by blast
    with l Nil.prems Returned show ?thesis by (intro exI [of _ "Suc k"]) auto
  qed
next
  case (Cons u q1)
  let ?s0 = "s\<lparr>calls := calls s @ [u]\<rparr>"
  have f: "isFlushing ?s0" using Cons.prems by simp
  have "runs_through (b u)" using Cons.prems by simp
  then obtain s1 where l: "exec_layout (flushNow n b) (b u) ?s0 = Some (Returned, s1)"
    "isFlushing s1" "calls s1 = calls ?s0" "destroyed s1 = destroyed ?s0"
    using exec_layout_flushing [OF f, of n b "b u"] by blast
  have "\<exists>k out s'. run_queue (flushNow n b) b (q1 @ t # q2) s1 = Some (out, s') \<and>
           calls s' = calls s1 @ take k (q1 @ t # q2) \<and> length q1 < k \<and>
           (runs_through (b t) \<and> q2 = [] \<longrightarrow> out = Returned)"
    using l Cons.prems by (intro Cons.IH) simp_all
  then obtain k out s' where "run_queue (flushNow n b) b (q1 @ t # q2) s1 = Some (out, s')"
    "calls s' = calls s1 @ take k (q1 @ t # q2)" "length q1 < k"
    "runs_through (b t) \<and> q2 = [] \<longrightarrow> out = Returned"
    by blast
  with l Cons.prems show ?case by (intro exI [of _ "Suc k"]) simp
qed

lemma split_at_target:
  "t \<in> set xs \<Longrightarrow>
   xs = takeWhile (\<lambda>u. u \<noteq> t) xs @ t # tl (dropWhile (\<lambda>u. u \<noteq> t) xs)"
  by (induction xs) auto

lemma flushNow_reaches:
  assumes "\<not> destroyed s" "\<not> isFlushing s" "t \<in> set (dirty s)"
    "\<forall>u\<in>set (takeWhile (\<lambda>u. u \<noteq> t) (dirty s)). runs_through (b u)"
  shows "\<exists>k out s'. flushNow (Suc n) b s = Some (out, s') \<and>
           calls s' = calls s @ take k (dirty s) \<and> t \<in> set (take k (dirty s))"
proof -
  let ?q1 = "takeWhile (\<lambda>u. u \<noteq> t) (dirty s)"
  let ?q2 = "tl (dropWhile (\<lambda>u. u \<noteq> t) (dirty s))"
  let ?s0 = "s\<lparr>isFlushing := True, dirty := []\<rparr>"
  have q: "dirty s = ?q1 @ t # ?q2"
    using assms(3) by (rule split_at_target)
  have "\<exists>k out s'. run_queue (flushNow n b) b (?q1 @ t # ?q2) ?s0 = Some (out, s') \<and>
           calls s' = calls ?s0 @ take k (?q1 @ t # ?q2) \<and> length ?q1 < k \<and>
           (runs_through (b t) \<and> ?q2 = [] \<longrightarrow> out = Returned)"
    using assms by (intro run_queue_reaches) simp_all
  then obtain k out s1 where r: "run_queue (flushNow n b) b (dirty s) ?s0 = Some (out, s1)"
    "calls s1 = calls s @ take k (dirty s)" "length ?q1 < k"
    using q by auto
  have "take k (dirty s) = ?q1 @ t # take (k - Suc (length ?q1)) ?q2"
    using r(3) by (subst q) (simp add: take_Cons')
  then have "t \<in> set (take k (dirty s))" by simp
  with r assms show ?thesis
    by (cases out) (auto intro!: exI [of _ k])
qed

lemma run_queue_runs_through:
  assumes "isFlushing s" "\<not> destroyed s" "\<forall>u\<in>set q. runs_through (b u)"
  shows "\<exists>s'. run_queue (flushNow n b) b q s = Some (Returned, s') \<and>
           calls s' = calls s @ q \<and> isFlushing s'"
  using assms
proof (induction q arbitrary: s)
  case Nil
  then show ?case by simp
next
  case (Cons u q)
  let ?s0 = "s\<lparr>calls := calls s @ [u]\<rparr>"
  have f: "isFlushing ?s0" using Cons.prems by simp
  have "runs_through (b u)" using Cons.prems by simp
  then obtain s1 where l: "exec_layout (flushNow n b) (b u) ?s0 = Some (Returned, s1)"
    "isFlushing s1" "calls s1 = calls ?s0" "destroyed s1 = destroyed ?s0"
    using exec_layout_flushing [OF f, of n b "b u"] by blast
  have "\<exists>s'. run_queue (flushNow n b) b q s1 = Some (Returned, s') \<and>
           calls s' = calls s1 @ q \<and> isFlushing s'"
    using l Cons.prems by (intro Cons.IH) simp_all
  with l Cons.prems show ?case by auto
qed

lemma flushNow_runs_through:
  assumes "\<not> destroyed s" "\<not> isFlushing s" "\<forall>u\<in>set (dirty s). runs_through (b u)"
  shows "\<exists>s'. flushNow (Suc n) b s = Some (Returned, s') \<and> calls s' = calls s @ dirty s"
proof (cases "dirty s = []")
  case True
  then show ?thesis by simp
next
  case False
  let ?s0 = "s\<lparr>isFlushing := True, dirty := []\<rparr>"
  have "\<exists>s'. run_queue (flushNow n b) b (dirty s) ?s0 = Some (Returned, s') \<and>
           calls s' = calls ?s0 @ dirty s \<and> isFlushing s'"
    using assms by (intro run_queue_runs_through) simp_all
  with assms False show ?thesis by auto
qed
lemma exec_call_keeps:
  assumes "isFlushing s" "\<not> destroyed s" "t \<in> set (dirty s)" "keeps t c"
  shows "\<exists>s'. exec_call (flushNow n b) c s = Some (Returned, s') \<and> isFlushing s' \<and>
           \<not> destroyed s' \<and> t \<in> set (dirty s') \<and> calls s' = calls s"
  using assms
  by (cases c)
    (simp_all add: flushNow_guard markDirty_def markDirtyMany_def removeTarget_def
      Set_add_def Set_delete_def set_foldl_Set_add)

lemma exec_layout_keeps:
  assumes "isFlushing s" "\<not> destroyed s" "t \<in> set (dirty s)" "list_all (keeps t) cs"
  shows "\<exists>s'. exec_layout (flushNow n b) cs s = Some (Returned, s') \<and> isFlushing s' \<and>
           \<not> destroyed s' \<and> t \<in> set (dirty s') \<and> calls s' = calls s"
  using assms
proof (induction cs arbitrary: s)
  case Nil
  then show ?case by simp
next
  case (Cons c cs)
  have "keeps t c" using Cons.prems by simp
  then obtain s1 where c: "exec_call (flushNow n b) c s = Some (Returned, s1)" "isFlushing s1"
    "\<not> destroyed s1" "t \<in> set (dirty s1)" "calls s1 = calls s"
    using exec_call_keeps [OF Cons.prems(1,2,3), of c n b] by blast
  have "\<exists>s'. exec_layout (flushNow n b) cs s1 = Some (Returned, s') \<and> isFlushing s' \<and>
           \<not> destroyed s' \<and> t \<in> set (dirty s') \<and> calls s' = calls s1"
    using c Cons.prems by (intro Cons.IH) simp_all
  with c show ?case by auto
qed

lemma run_queue_keeps:
  assumes "isFlushing s" "\<not> destroyed s" "t \<in> set (dirty s)"
    "\<forall>v\<in>set q. list_all (keeps t) (b v)"
  shows "\<exists>s'. run_queue (flushNow n b) b q s = Some (Returned, s') \<and> isFlushing s' \<and>
           \<not> destroyed s' \<and> t \<in> set (dirty s') \<and> calls s' = calls s @ q"
  using assms
proof (induction q arbitrary: s)
  case Nil
  then show ?case by simp
next
  case (Cons v q)
  let ?s0 = "s\<lparr>calls := calls s @ [v]\<rparr>"
  have "\<exists>s'. exec_layout (flushNow n b) (b v) ?s0 = Some (Returned, s') \<and> isFlushing s' \<and>
           \<not> destroyed s' \<and> t \<in> set (dirty s') \<and> calls s' = calls ?s0"
    using Cons.prems by (intro exec_layout_keeps) simp_all
  then obtain s1 where l: "exec_layout (flushNow n b) (b v) ?s0 = Some (Returned, s1)"
    "isFlushing s1" "\<not> destroyed s1" "t \<in> set (dirty s1)" "calls s1 = calls ?s0"
    by blast
  have "\<exists>s'. run_queue (flushNow n b) b q s1 = Some (Returned, s') \<and> isFlushing s' \<and>
           \<not> destroyed s' \<and> t \<in> set (dirty s') \<and> calls s' = calls s1 @ q"
    using l Cons.prems by (intro Cons.IH) simp_all
  with l Cons.prems show ?case by auto
qed

lemma exec_call_mark:
  assumes "isFlushing s" "\<not> destroyed s" "t \<in> set (marks_of c)"
  shows "\<exists>s'. exec_call (flushNow n b) c s = Some (Returned, s') \<and> isFlushing s' \<and>
           \<not> destroyed s' \<and> t \<in> set (dirty s') \<and> calls s' = calls s"
  using assms
  by (cases c) (auto simp add: markDirty_def markDirtyMany_def Set_add_def set_foldl_Set_add)

lemma exec_layout_append:
  "exec_layout fl (cs1 @ cs2) s =
     (case exec_layout fl cs1 s of
        None \<Rightarrow> None
      | Some (Threw, s') \<Rightarrow> Some (Threw, s')
      | Some (Returned, s') \<Rightarrow> exec_layout fl cs2 s')"
  by (induction cs1 arbitrary: s) (auto split: option.splits outcome.splits)

lemma exec_layout_deferred:
  assumes "isFlushing s" "\<not> destroyed s" "runs_through cs1" "t \<in> set (marks_of c)"
    "list_all (keeps t) cs2"
  shows "\<exists>s'. exec_layout (flushNow n b) (cs1 @ c # cs2) s = Some (Returned, s') \<and>
           isFlushing s' \<and> \<not> destroyed s' \<and> t \<in> set (dirty s') \<and> calls s' = calls s"
proof -
  obtain s1 where a: "exec_layout (flushNow n b) cs1 s = Some (Returned, s1)" "isFlushing s1"
    "calls s1 = calls s" "destroyed s1 = destroyed s"
    using exec_layout_flushing [OF assms(1), of n b cs1] assms(3) by blast
  then have "\<not> destroyed s1" using assms(2) by simp
  then obtain s2 where c: "exec_call (flushNow n b) c s1 = Some (Returned, s2)" "isFlushing s2"
    "\<not> destroyed s2" "t \<in> set (dirty s2)" "calls s2 = calls s1"
    using exec_call_mark [OF a(2) _ assms(4), of n b] by blast
  obtain s3 where r: "exec_layout (flushNow n b) cs2 s2 = Some (Returned, s3)" "isFlushing s3"
    "\<not> destroyed s3" "t \<in> set (dirty s3)" "calls s3 = calls s2"
    using exec_layout_keeps [OF c(2,3,4) assms(5), of n b] by blast
  from a c r show ?thesis
    by (simp add: exec_layout_append)
qed

lemma run_queue_deferred:
  assumes "isFlushing s" "\<not> destroyed s" "\<forall>v\<in>set q1. runs_through (b v)"
    "b u = cs1 @ c # cs2" "runs_through cs1" "t \<in> set (marks_of c)" "list_all (keeps t) cs2"
    "\<forall>v\<in>set q2. list_all (keeps t) (b v)"
  shows "\<exists>s'. run_queue (flushNow n b) b (q1 @ u # q2) s = Some (Returned, s') \<and>
           isFlushing s' \<and> \<not> destroyed s' \<and> t \<in> set (dirty s') \<and>
           calls s' = calls s @ q1 @ u # q2"
  using assms(1,2,3)
proof (induction q1 arbitrary: s)
  case Nil
  let ?s0 = "s\<lparr>calls := calls s @ [u]\<rparr>"
  have "\<exists>s'. exec_layout (flushNow n b) (cs1 @ c # cs2) ?s0 = Some (Returned, s') \<and>
           isFlushing s' \<and> \<not> destroyed s' \<and> t \<in> set (dirty s') \<and> calls s' = calls ?s0"
    using Nil.prems assms(5,6,7) by (intro exec_layout_deferred) simp_all
  then obtain s1 where l: "exec_layout (flushNow n b) (b u) ?s0 = Some (Returned, s1)"
    "isFlushing s1" "\<not> destroyed s1" "t \<in> set (dirty s1)" "calls s1 = calls ?s0"
    using assms(4) by auto
  obtain s' where "run_queue (flushNow n b) b q2 s1 = Some (Returned, s')" "isFlushing s'"
    "\<not> destroyed s'" "t \<in> set (dirty s')" "calls s' = calls s1 @ q2"
    using run_queue_keeps [OF l(2,3,4) assms(8), of n] by blast
  with l Nil.prems show ?case by simp
next
  case (Cons v q1)
  let ?s0 = "s\<lparr>calls := calls s @ [v]\<rparr>"
  have f: "isFlushing ?s0" using Cons.prems by simp
  have "runs_through (b v)" using Cons.prems by simp
  then obtain s1 where l: "exec_layout (flushNow n b) (b v) ?s0 = Some (Returned, s1)"
    "isFlushing s1" "calls s1 = calls ?s0" "destroyed s1 = destroyed ?s0"
    using exec_layout_flushing [OF f, of n b "b v"] by blast
  have "\<exists>s'. run_queue (flushNow n b) b (q1 @ u # q2) s1 = Some (Returned, s') \<and>
           isFlushing s' \<and> \<not> destroyed s' \<and> t \<in> set (dirty s') \<and>
           calls s' = calls s1 @ q1 @ u # q2"
    using l Cons.prems by (intro Cons.IH) simp_all
  with l Cons.prems show ?case by auto
qed

lemma flushNow_deferred:
  assumes "\<not> destroyed s" "\<not> isFlushing s" "dirty s = q1 @ u # q2"
    "\<forall>v\<in>set q1. runs_through (b v)"
    "b u = cs1 @ c # cs2" "runs_through cs1" "t \<in> set (marks_of c)" "list_all (keeps t) cs2"
    "\<forall>v\<in>set q2. list_all (keeps t) (b v)"
  shows "\<exists>s'. flushNow (Suc n) b s = Some (Returned, s') \<and> calls s' = calls s @ dirty s \<and>
           t \<in> set (dirty s') \<and> \<not> destroyed s' \<and> \<not> isFlushing s'"
proof -
  let ?s0 = "s\<lparr>isFlushing := True, dirty := []\<rparr>"
  have "\<exists>s'. run_queue (flushNow n b) b (q1 @ u # q2) ?s0 = Some (Returned, s') \<and>
           isFlushing s' \<and> \<not> destroyed s' \<and> t \<in> set (dirty s') \<and>
           calls s' = calls ?s0 @ q1 @ u # q2"
    using assms by (intro run_queue_deferred) simp_all
  then obtain s1 where "run_queue (flushNow n b) b (dirty s) ?s0 = Some (Returned, s1)"
    "\<not> destroyed s1" "t \<in> set (dirty s1)" "calls s1 = calls s @ dirty s"
    using assms(3) by auto
  with assms(1,2,3) show ?thesis by simp
qed

text \<open>
  C2, as amended. A flush lays out a prefix of the dirty set as it was when the flush
  began, in order, whatever the layouts do: the set is copied and cleared before the
  first layout runs. One level of nesting is enough for it to return, and taking every
  \<open>flush()\<close> call out of the layouts changes nothing, because \<open>flush()\<close> called while a
  pass is in progress returns at once without touching the state. \<open>markDirty(t)\<close> called
  during a pass on a live scheduler adds \<open>t\<close> to the cleared set and lays nothing out.

  The mark is deferred to the next flush under a proviso. Let the layout of \<open>u\<close>, a target
  of the batch, mark \<open>t\<close> with the call \<open>c\<close>, and let no call of the pass before \<open>c\<close>
  destroy the scheduler or throw. If no call of the pass after \<open>c\<close> removes \<open>t\<close>, clears
  the set, destroys the scheduler or throws, the flush lays out the whole batch and
  returns with \<open>t\<close> pending on a live scheduler that is not flushing; the next flush then
  calls the layout of \<open>t\<close>, provided no layout called before it in that flush destroys
  the scheduler or throws. When the layouts of a batch only mark targets or flush, the
  pass leaves exactly the marked targets in the set, and the next flush lays out exactly
  those.
\<close>

theorem flush_defers_marks:
  "(\<exists>k out s'.
      flushNow (Suc n) b s = Some (out, s') \<and>
      calls_since s s' = take k (dirty s) \<and>
      flushNow (Suc 0) b s = Some (out, s') \<and>
      flushNow (Suc n) (strip_flush b) s = Some (out, s')) \<and>
   (isFlushing s \<longrightarrow> exec_call (flushNow n b) Flush s = Some (Returned, s)) \<and>
   (isFlushing s \<and> \<not> destroyed s \<longrightarrow>
      exec_call (flushNow n b) (MarkDirty t) s
        = Some (Returned, s\<lparr>dirty := Set_add (dirty s) t\<rparr>)) \<and>
   (\<not> destroyed s \<and> \<not> isFlushing s \<and> dirty s = q1 @ u # q2 \<and>
    (\<forall>v\<in>set q1. runs_through (b v)) \<and>
    b u = cs1 @ c # cs2 \<and> runs_through cs1 \<and> t \<in> set (marks_of c) \<and>
    list_all (keeps t) cs2 \<and> (\<forall>v\<in>set q2. list_all (keeps t) (b v)) \<longrightarrow>
      (\<exists>s'. flushNow (Suc n) b s = Some (Returned, s') \<and>
         calls_since s s' = dirty s \<and>
         t \<in> set (dirty s') \<and> \<not> destroyed s' \<and> \<not> isFlushing s' \<and>
         ((\<forall>v\<in>set (takeWhile (\<lambda>v. v \<noteq> t) (dirty s')). runs_through (b v)) \<longrightarrow>
            (\<exists>k out s''. flushNow (Suc n) b s' = Some (out, s'') \<and>
               calls_since s' s'' = take k (dirty s') \<and>
               t \<in> set (calls_since s' s''))))) \<and>
   (\<not> destroyed s \<and> \<not> isFlushing s \<and> (\<forall>u\<in>set (dirty s). list_all only_marks (b u)) \<longrightarrow>
      flushNow (Suc n) b s =
        Some (Returned, s\<lparr>dirty := marked_during b (dirty s), calls := calls s @ dirty s\<rparr>)) \<and>
   (\<not> destroyed s \<and> \<not> isFlushing s \<and> (\<forall>u\<in>set (dirty s). list_all only_marks (b u)) \<and>
    (\<forall>u\<in>set (marked_during b (dirty s)). list_all only_marks (b u)) \<longrightarrow>
      flushNow (Suc n) b
        (s\<lparr>dirty := marked_during b (dirty s), calls := calls s @ dirty s\<rparr>) =
        Some (Returned,
          s\<lparr>dirty := marked_during b (marked_during b (dirty s)),
            calls := calls s @ dirty s @ marked_during b (dirty s)\<rparr>))"
proof (intro conjI impI)
  obtain k out s' where f: "flushNow (Suc n) b s = Some (out, s')"
    "calls s' = calls s @ take k (dirty s)"
    using flushNow_calls by blast
  have "flushNow (Suc 0) b s = Some (out, s')"
    using f(1) flushNow_fuel [of n b s] by simp
  moreover have "flushNow (Suc n) (strip_flush b) s = Some (out, s')"
    using f(1) flushNow_strip [of n b s n] by simp
  ultimately show "\<exists>k out s'.
      flushNow (Suc n) b s = Some (out, s') \<and>
      calls_since s s' = take k (dirty s) \<and>
      flushNow (Suc 0) b s = Some (out, s') \<and>
      flushNow (Suc n) (strip_flush b) s = Some (out, s')"
    using f by (intro exI [of _ k]) (simp add: calls_since_def)
next
  assume "isFlushing s"
  then show "exec_call (flushNow n b) Flush s = Some (Returned, s)"
    by (simp add: flushNow_guard)
next
  assume "isFlushing s \<and> \<not> destroyed s"
  then show "exec_call (flushNow n b) (MarkDirty t) s
        = Some (Returned, s\<lparr>dirty := Set_add (dirty s) t\<rparr>)"
    by (simp add: markDirty_def)
next
  assume a: "\<not> destroyed s \<and> \<not> isFlushing s \<and> dirty s = q1 @ u # q2 \<and>
    (\<forall>v\<in>set q1. runs_through (b v)) \<and>
    b u = cs1 @ c # cs2 \<and> runs_through cs1 \<and> t \<in> set (marks_of c) \<and>
    list_all (keeps t) cs2 \<and> (\<forall>v\<in>set q2. list_all (keeps t) (b v))"
  have "\<exists>s'. flushNow (Suc n) b s = Some (Returned, s') \<and> calls s' = calls s @ dirty s \<and>
           t \<in> set (dirty s') \<and> \<not> destroyed s' \<and> \<not> isFlushing s'"
    using a by (intro flushNow_deferred [where ?q1.0 = q1 and u = u and ?q2.0 = q2
          and ?cs1.0 = cs1 and c = c and ?cs2.0 = cs2]) simp_all
  then obtain s' where s': "flushNow (Suc n) b s = Some (Returned, s')"
    "calls s' = calls s @ dirty s" "t \<in> set (dirty s')" "\<not> destroyed s'" "\<not> isFlushing s'"
    by blast
  have "\<exists>k out s''. flushNow (Suc n) b s' = Some (out, s'') \<and>
               calls_since s' s'' = take k (dirty s') \<and>
               t \<in> set (calls_since s' s'')"
    if before: "\<forall>v\<in>set (takeWhile (\<lambda>v. v \<noteq> t) (dirty s')). runs_through (b v)"
  proof -
    obtain k out s'' where "flushNow (Suc n) b s' = Some (out, s'')"
      "calls s'' = calls s' @ take k (dirty s')" "t \<in> set (take k (dirty s'))"
      using flushNow_reaches [OF s'(4,5,3) before, of n] by blast
    then show ?thesis
      by (intro exI [of _ k]) (simp add: calls_since_def)
  qed
  with s' show "\<exists>s'. flushNow (Suc n) b s = Some (Returned, s') \<and>
         calls_since s s' = dirty s \<and>
         t \<in> set (dirty s') \<and> \<not> destroyed s' \<and> \<not> isFlushing s' \<and>
         ((\<forall>v\<in>set (takeWhile (\<lambda>v. v \<noteq> t) (dirty s')). runs_through (b v)) \<longrightarrow>
            (\<exists>k out s''. flushNow (Suc n) b s' = Some (out, s'') \<and>
               calls_since s' s'' = take k (dirty s') \<and>
               t \<in> set (calls_since s' s'')))"
    by (intro exI [of _ s']) (simp add: calls_since_def)
next
  assume "\<not> destroyed s \<and> \<not> isFlushing s \<and> (\<forall>u\<in>set (dirty s). list_all only_marks (b u))"
  then show "flushNow (Suc n) b s =
        Some (Returned, s\<lparr>dirty := marked_during b (dirty s), calls := calls s @ dirty s\<rparr>)"
    by (intro flushNow_marks) simp_all
next
  let ?s1 = "s\<lparr>dirty := marked_during b (dirty s), calls := calls s @ dirty s\<rparr>"
  assume "\<not> destroyed s \<and> \<not> isFlushing s \<and> (\<forall>u\<in>set (dirty s). list_all only_marks (b u)) \<and>
    (\<forall>u\<in>set (marked_during b (dirty s)). list_all only_marks (b u))"
  then have "flushNow (Suc n) b ?s1 =
        Some (Returned, ?s1\<lparr>dirty := marked_during b (dirty ?s1), calls := calls ?s1 @ dirty ?s1\<rparr>)"
    by (intro flushNow_marks) simp_all
  then show "flushNow (Suc n) b ?s1 =
        Some (Returned,
          s\<lparr>dirty := marked_during b (marked_during b (dirty s)),
            calls := calls s @ dirty s @ marked_during b (dirty s)\<rparr>)"
    by simp
qed

text \<open>
  The layout of target \<open>0\<close> marks target \<open>2\<close>, and the layout of target \<open>1\<close>, called
  later in the same pass, clears the set or destroys the scheduler: the mark is lost,
  and neither this flush nor the next calls the layout of \<open>2\<close>.
\<close>

theorem dropped_mark_counterexample:
  "flushNow 1 (dropping_mark Clear) (mark_all [0, 1] layoutAuto) =
     Some (Returned,
       \<lparr>dirty = [], destroyed = False, isFlushing = False, listening = True,
        calls = [0, 1]\<rparr>) \<and>
   flushNow 1 (dropping_mark Clear)
     \<lparr>dirty = [], destroyed = False, isFlushing = False, listening = True, calls = [0, 1]\<rparr> =
     Some (Returned,
       \<lparr>dirty = [], destroyed = False, isFlushing = False, listening = True,
        calls = [0, 1]\<rparr>) \<and>
   flushNow 1 (dropping_mark Destroy) (mark_all [0, 1] layoutAuto) =
     Some (Returned,
       \<lparr>dirty = [], destroyed = True, isFlushing = False, listening = False,
        calls = [0, 1]\<rparr>) \<and>
   flushNow 1 (dropping_mark Destroy)
     \<lparr>dirty = [], destroyed = True, isFlushing = False, listening = False, calls = [0, 1]\<rparr> =
     Some (Returned,
       \<lparr>dirty = [], destroyed = True, isFlushing = False, listening = False,
        calls = [0, 1]\<rparr>) \<and>
   count_list [0, 1 :: nat] 2 = 0"
  by (simp add: layoutAuto_def mark_all_def markDirty_def Set_add_def dropping_mark_def
      clearDirty_def destroyScheduler_def)
text \<open>The dirty set never holds a target twice.\<close>

lemma exec_call_distinct:
  assumes fl: "\<And>s out s'. distinct (dirty s) \<Longrightarrow> fl s = Some (out, s') \<Longrightarrow> distinct (dirty s')"
    and "distinct (dirty s)" "exec_call fl c s = Some (out, s')"
  shows "distinct (dirty s')"
  using assms(2,3) fl [of s out s']
  by (cases c)
    (auto simp add: markDirty_def markDirtyMany_def removeTarget_def clearDirty_def
      destroyScheduler_def Set_add_def Set_delete_def distinct_foldl_Set_add
      distinct_removeAll split: if_splits)

lemma exec_layout_distinct:
  assumes fl: "\<And>s out s'. distinct (dirty s) \<Longrightarrow> fl s = Some (out, s') \<Longrightarrow> distinct (dirty s')"
    and "distinct (dirty s)" "exec_layout fl cs s = Some (out, s')"
  shows "distinct (dirty s')"
  using assms(2,3)
proof (induction cs arbitrary: s)
  case Nil
  then show ?case by simp
next
  case (Cons c cs)
  from Cons.prems(2) obtain o1 s1 where c: "exec_call fl c s = Some (o1, s1)"
    by (auto split: option.splits)
  have d: "distinct (dirty s1)"
    using fl Cons.prems(1) c by (rule exec_call_distinct)
  show ?case
  proof (cases o1)
    case Threw
    with c d Cons.prems(2) show ?thesis by simp
  next
    case Returned
    with c Cons.prems(2) have "exec_layout fl cs s1 = Some (out, s')" by simp
    with d show ?thesis by (rule Cons.IH)
  qed
qed

lemma run_queue_distinct:
  assumes fl: "\<And>s out s'. distinct (dirty s) \<Longrightarrow> fl s = Some (out, s') \<Longrightarrow> distinct (dirty s')"
    and "distinct (dirty s)" "run_queue fl b q s = Some (out, s')"
  shows "distinct (dirty s')"
  using assms(2,3)
proof (induction q arbitrary: s)
  case Nil
  then show ?case by simp
next
  case (Cons t q)
  show ?case
  proof (cases "destroyed s")
    case True
    with Cons.prems show ?thesis by simp
  next
    case False
    let ?s0 = "s\<lparr>calls := calls s @ [t]\<rparr>"
    from Cons.prems(2) False obtain o1 s1 where l: "exec_layout fl (b t) ?s0 = Some (o1, s1)"
      by (auto split: option.splits)
    have "distinct (dirty ?s0)" using Cons.prems(1) by simp
    with fl have d: "distinct (dirty s1)"
      using l by (rule exec_layout_distinct)
    show ?thesis
    proof (cases o1)
      case Threw
      with l d False Cons.prems(2) show ?thesis by simp
    next
      case Returned
      with l False Cons.prems(2) have "run_queue fl b q s1 = Some (out, s')" by simp
      with d show ?thesis by (rule Cons.IH)
    qed
  qed
qed

lemma flushNow_distinct:
  "distinct (dirty s) \<Longrightarrow> flushNow n b s = Some (out, s') \<Longrightarrow> distinct (dirty s')"
proof (induction n arbitrary: s out s')
  case 0
  then show ?case by (simp split: if_splits)
next
  case (Suc n)
  show ?case
  proof (cases "destroyed s \<or> dirty s = [] \<or> isFlushing s")
    case True
    with Suc.prems show ?thesis by (simp add: flushNow_guard)
  next
    case False
    let ?s0 = "s\<lparr>isFlushing := True, dirty := []\<rparr>"
    from Suc.prems(2) False obtain o1 s1 where
      r: "run_queue (flushNow n b) b (dirty s) ?s0 = Some (o1, s1)"
      by (auto split: option.splits)
    have "distinct (dirty ?s0)" by simp
    with Suc.IH have "distinct (dirty s1)"
      using r by (rule run_queue_distinct)
    with r False Suc.prems(2) show ?thesis by (cases o1) auto
  qed
qed

lemma operations_distinct:
  assumes "distinct (dirty s)"
  shows "distinct (dirty (markDirty t s))" "distinct (dirty (markDirtyMany ts s))"
    "distinct (dirty (removeTarget t s))" "distinct (dirty (clearDirty s))"
    "distinct (dirty (destroyScheduler s))" "distinct (dirty (layoutAuto :: 'a sched))"
  using assms
  by (simp_all add: markDirty_def markDirtyMany_def removeTarget_def clearDirty_def
      destroyScheduler_def Set_add_def Set_delete_def distinct_foldl_Set_add distinct_removeAll
      layoutAuto_def)

text \<open>
  C8, as amended. On a live scheduler that is not flushing, after any sequence \<open>ms\<close> of
  \<open>markDirty\<close> calls, the next flush calls the layouts of a prefix of the pending
  targets in the order of their first mark, so no target is laid out twice however
  often it was marked. A marked target is laid out exactly once when no layout called
  before it in the pass destroys the scheduler or throws. When no layout of the batch
  does, the whole batch is laid out in first-mark order.
\<close>

theorem marked_once_in_first_mark_order:
  "\<not> destroyed s \<and> \<not> isFlushing s \<and> distinct (dirty s) \<longrightarrow>
     (\<exists>k out s'.
        flushNow (Suc n) b (mark_all ms s) = Some (out, s') \<and>
        calls_since s s' = take k (first_marked (dirty s @ ms)) \<and>
        (\<forall>t\<in>set ms. count_list (calls_since s s') t \<le> 1)) \<and>
     (\<forall>t\<in>set ms.
        (\<forall>u\<in>set (takeWhile (\<lambda>u. u \<noteq> t) (first_marked (dirty s @ ms))). runs_through (b u)) \<longrightarrow>
        (\<exists>out s'.
           flushNow (Suc n) b (mark_all ms s) = Some (out, s') \<and>
           count_list (calls_since s s') t = 1)) \<and>
     ((\<forall>u\<in>set (dirty s @ ms). runs_through (b u)) \<longrightarrow>
        (\<exists>s'.
           flushNow (Suc n) b (mark_all ms s) = Some (Returned, s') \<and>
           calls_since s s' = first_marked (dirty s @ ms)))"
proof (intro impI, elim conjE)
  assume live: "\<not> destroyed s" and idle: "\<not> isFlushing s" and dist: "distinct (dirty s)"
  let ?s1 = "mark_all ms s"
  let ?batch = "first_marked (dirty s @ ms)"
  have s1: "?s1 = s\<lparr>dirty := ?batch\<rparr>"
    using live dist by (simp add: mark_all_eq foldl_Set_add_first_marked)
  have batch_distinct: "distinct ?batch"
    using dist by (simp add: foldl_Set_add_first_marked [symmetric] distinct_foldl_Set_add)
  have batch_set: "set ?batch = set (dirty s) \<union> set ms"
    using dist by (simp add: foldl_Set_add_first_marked [symmetric] set_foldl_Set_add)
  have once: "\<And>k t. count_list (take k ?batch) t = (if t \<in> set (take k ?batch) then 1 else 0)"
    using batch_distinct by (intro count_list_distinct) simp
  have part1: "\<exists>k out s'.
        flushNow (Suc n) b ?s1 = Some (out, s') \<and>
        calls_since s s' = take k ?batch \<and>
        (\<forall>t\<in>set ms. count_list (calls_since s s') t \<le> 1)"
  proof -
    obtain k out s' where "flushNow (Suc n) b ?s1 = Some (out, s')"
      "calls s' = calls ?s1 @ take k (dirty ?s1)"
      using flushNow_calls by blast
    then have "flushNow (Suc n) b ?s1 = Some (out, s')" "calls_since s s' = take k ?batch"
      by (simp_all add: s1 calls_since_def)
    then show ?thesis
      using once by (intro exI [of _ k]) simp
  qed
  have part2: "\<forall>t\<in>set ms.
        (\<forall>u\<in>set (takeWhile (\<lambda>u. u \<noteq> t) ?batch). runs_through (b u)) \<longrightarrow>
        (\<exists>out s'.
           flushNow (Suc n) b ?s1 = Some (out, s') \<and>
           count_list (calls_since s s') t = 1)"
  proof (intro ballI impI)
    fix t
    assume t: "t \<in> set ms"
      and before: "\<forall>u\<in>set (takeWhile (\<lambda>u. u \<noteq> t) ?batch). runs_through (b u)"
    have "\<exists>k out s'. flushNow (Suc n) b ?s1 = Some (out, s') \<and>
           calls s' = calls ?s1 @ take k (dirty ?s1) \<and> t \<in> set (take k (dirty ?s1))"
      using live idle t before batch_set by (intro flushNow_reaches) (simp_all add: s1)
    then obtain k out s' where "flushNow (Suc n) b ?s1 = Some (out, s')"
      "calls_since s s' = take k ?batch" "t \<in> set (take k ?batch)"
      by (auto simp add: s1 calls_since_def)
    then show "\<exists>out s'.
           flushNow (Suc n) b ?s1 = Some (out, s') \<and>
           count_list (calls_since s s') t = 1"
      using once by simp
  qed
  have part3: "(\<forall>u\<in>set (dirty s @ ms). runs_through (b u)) \<longrightarrow>
        (\<exists>s'.
           flushNow (Suc n) b ?s1 = Some (Returned, s') \<and>
           calls_since s s' = ?batch)"
  proof
    assume "\<forall>u\<in>set (dirty s @ ms). runs_through (b u)"
    then have "\<exists>s'. flushNow (Suc n) b ?s1 = Some (Returned, s') \<and>
        calls s' = calls ?s1 @ dirty ?s1"
      using live idle batch_set by (intro flushNow_runs_through) (simp_all add: s1)
    then show "\<exists>s'.
           flushNow (Suc n) b ?s1 = Some (Returned, s') \<and>
           calls_since s s' = ?batch"
      by (auto simp add: s1 calls_since_def)
  qed
  from part1 part2 part3 show
    "(\<exists>k out s'.
        flushNow (Suc n) b ?s1 = Some (out, s') \<and>
        calls_since s s' = take k ?batch \<and>
        (\<forall>t\<in>set ms. count_list (calls_since s s') t \<le> 1)) \<and>
     (\<forall>t\<in>set ms.
        (\<forall>u\<in>set (takeWhile (\<lambda>u. u \<noteq> t) ?batch). runs_through (b u)) \<longrightarrow>
        (\<exists>out s'.
           flushNow (Suc n) b ?s1 = Some (out, s') \<and>
           count_list (calls_since s s') t = 1)) \<and>
     ((\<forall>u\<in>set (dirty s @ ms). runs_through (b u)) \<longrightarrow>
        (\<exists>s'.
           flushNow (Suc n) b ?s1 = Some (Returned, s') \<and>
           calls_since s s' = ?batch))"
    by blast
qed

lemma remarking_scripts:
  "remarking 0 = [MarkDirty 0, Flush]" "remarking (Suc 0) = [MarkDirty 2]" "remarking 2 = []"
  by (simp_all add: remarking_def)

theorem marked_once_in_first_mark_order_witness:
  "\<not> destroyed (layoutAuto :: nat sched) \<and> \<not> isFlushing (layoutAuto :: nat sched) \<and>
   distinct (dirty (layoutAuto :: nat sched)) \<and>
   runs_through (remarking 0) \<and> runs_through (remarking 1) \<and>
   first_marked [0, 1, 0, 1 :: nat] = [0, 1] \<and>
   flushNow 1 remarking (mark_all [0, 1, 0, 1] layoutAuto) =
     Some (Returned,
       \<lparr>dirty = [0, 2], destroyed = False, isFlushing = False, listening = True,
        calls = [0, 1]\<rparr>) \<and>
   calls_since layoutAuto
     \<lparr>dirty = [0, 2 :: nat], destroyed = False, isFlushing = False, listening = True,
      calls = [0, 1]\<rparr> = [0, 1]"
  using marked_once_in_first_mark_order [of layoutAuto 0 remarking "[0, 1, 0, 1]"]
  by (simp add: layoutAuto_def mark_all_def markDirty_def Set_add_def first_marked_def
      remarking_scripts runs_through_def calls_since_def)

text \<open>
  Targets \<open>0\<close> and \<open>1\<close> are marked in that order and the layout of \<open>0\<close> destroys the
  scheduler: the pass stops and the layout of \<open>1\<close> is never called.
\<close>

theorem destroy_mid_pass_counterexample:
  "dirty (markDirty 1 (markDirty 0 layoutAuto)) = [0, 1 :: nat] \<and>
   flushNow 1 destroying_first (markDirty 1 (markDirty 0 layoutAuto)) =
     Some (Returned,
       \<lparr>dirty = [], destroyed = True, isFlushing = False, listening = False, calls = [0]\<rparr>) \<and>
   count_list [0 :: nat] 1 \<noteq> 1"
  by (simp add: layoutAuto_def markDirty_def Set_add_def destroying_first_def
      destroyScheduler_def)

text \<open>
  C5. The layout of target \<open>0\<close> throws during a flush. The exception leaves
  \<open>isFlushing\<close> set, and a later flush with target \<open>1\<close> pending returns without
  calling its layout.
\<close>

theorem throw_leaves_scheduler_flushing:
  "flushNow 1 throwing_first (markDirty 0 layoutAuto) = Some (Threw, mid_flush) \<and>
   isFlushing mid_flush \<and>
   flushNow 1 throwing_first (markDirty 1 mid_flush) =
     Some (Returned,
       \<lparr>dirty = [1], destroyed = False, isFlushing = True, listening = True, calls = [0]\<rparr>)"
  by (simp add: layoutAuto_def markDirty_def Set_add_def throwing_first_def mid_flush_def)

text \<open>The same in general: after any flush that threw, no flush ever lays anything out.\<close>

lemma flushNow_Threw_stuck:
  assumes "flushNow n b s = Some (Threw, s')"
  shows "isFlushing s'"
proof (cases n)
  case 0
  with assms show ?thesis by (simp split: if_splits)
next
  case (Suc m)
  show ?thesis
  proof (cases "destroyed s \<or> dirty s = [] \<or> isFlushing s")
    case True
    with assms show ?thesis by (simp add: flushNow_guard)
  next
    case False
    let ?s0 = "s\<lparr>isFlushing := True, dirty := []\<rparr>"
    have "isFlushing ?s0" by simp
    then obtain k out s1 where "run_queue (flushNow m b) b (dirty s) ?s0 = Some (out, s1)"
      "isFlushing s1"
      using run_queue_flushing by blast
    with assms Suc False show ?thesis by (cases out) auto
  qed
qed

lemma mark_all_isFlushing: "isFlushing (mark_all ms s) = isFlushing s"
  unfolding mark_all_def
  by (induction ms arbitrary: s) (simp_all add: markDirty_def)

lemma flushNow_stuck:
  "isFlushing s \<Longrightarrow> flushNow m b' (mark_all ms s) = Some (Returned, mark_all ms s)"
  by (simp add: flushNow_guard mark_all_isFlushing)
theorem flush_defers_marks_witness:
  "\<not> destroyed (mark_all [0, 1] layoutAuto :: nat sched) \<and>
   \<not> isFlushing (mark_all [0, 1] layoutAuto :: nat sched) \<and>
   dirty (mark_all [0, 1] layoutAuto :: nat sched) = [0] @ 1 # [] \<and>
   runs_through (remarking 0) \<and>
   remarking 1 = [] @ MarkDirty 2 # [] \<and> 2 \<in> set (marks_of (MarkDirty 2 :: nat call)) \<and>
   list_all only_marks (remarking 0) \<and> list_all only_marks (remarking 1) \<and>
   list_all only_marks (remarking 2) \<and>
   flushNow 1 remarking (mark_all [0, 1] layoutAuto) =
     Some (Returned,
       \<lparr>dirty = [0, 2], destroyed = False, isFlushing = False, listening = True,
        calls = [0, 1]\<rparr>) \<and>
   flushNow 1 remarking
     \<lparr>dirty = [0, 2], destroyed = False, isFlushing = False, listening = True,
      calls = [0, 1]\<rparr> =
     Some (Returned,
       \<lparr>dirty = [0], destroyed = False, isFlushing = False, listening = True,
        calls = [0, 1, 0, 2]\<rparr>) \<and>
   isFlushing mid_flush \<and> \<not> destroyed mid_flush \<and>
   exec_call (flushNow 0 remarking) Flush mid_flush = Some (Returned, mid_flush) \<and>
   exec_call (flushNow 0 remarking) (MarkDirty 0) mid_flush =
     Some (Returned, mid_flush\<lparr>dirty := [0]\<rparr>)"
  using flush_defers_marks [where n = 0 and b = remarking and s = "mark_all [0, 1] layoutAuto"
      and t = 2 and ?q1.0 = "[0]" and u = 1 and ?q2.0 = "[]" and ?cs1.0 = "[]"
      and c = "MarkDirty 2" and ?cs2.0 = "[]"]
    flush_defers_marks [where n = 0 and b = remarking and s = mid_flush and t = 0
      and ?q1.0 = "[]" and u = 0 and ?q2.0 = "[]" and ?cs1.0 = "[]" and c = "MarkDirty 0"
      and ?cs2.0 = "[]"]
  by (simp add: layoutAuto_def mark_all_def markDirty_def Set_add_def remarking_scripts
      mid_flush_def marked_during_def runs_through_def)
section \<open>Properties of the anchor\<close>

lemma computeAnchoredX_cases:
  "computeAnchoredX a l aw r hw =
     (case horizontal_of a of AtLeft \<Rightarrow> l + hw | HCentered \<Rightarrow> l + aw / 2 | AtRight \<Rightarrow> r - hw)"
  by (cases a) simp_all

lemma computeAnchoredY_cases:
  "computeAnchoredY a t ah bt hh =
     (case vertical_of a of AtTop \<Rightarrow> t + hh | VCentered \<Rightarrow> t + ah / 2 | AtBottom \<Rightarrow> bt - hh)"
  by (cases a) simp_all

lemma placeTarget_eq:
  assumes "\<not> b_destroyed bd" "t_setPosition t"
  shows "placeTarget bd sc t = Inr (t\<lparr>t_position := (anchored_x bd sc t, anchored_y bd sc t)\<rparr>)"
  using assms
  unfolding anchored_x_def anchored_y_def inner_left_def inner_right_def inner_top_def
    inner_bottom_def insets_of_def
  by (simp add: placeTarget_def Let_def setTargetPosition_def
      computeAnchoredX_cases computeAnchoredY_cases)

lemma anchors_distinct: "inj (\<lambda>a. (horizontal_of a, vertical_of a))"
proof (rule injI)
  fix a a' :: ViewportAnchor
  assume "(horizontal_of a, vertical_of a) = (horizontal_of a', vertical_of a')"
  then show "a = a'" by (cases a; cases a') simp_all
qed

text \<open>
  C9. \<open>computeAnchoredX\<close> and \<open>computeAnchoredY\<close> send each of the nine anchor points
  to the left, the middle or the right, and to the top, the middle or the bottom of the
  rectangle they are given, half the target's size inwards from an edge; the nine
  points are the nine combinations. \<open>placeTarget\<close> applies them to the inset-adjusted
  viewport rectangle with half the display size and adds the offset. A target displayed
  at 100 by 50, anchored at the top right with offset \<open>(-10, 10)\<close> in an 800 by 600
  viewport without insets, is placed at \<open>(740, 35)\<close>.
\<close>

theorem anchor_placement:
  "computeAnchoredX a l aw r hw =
     (case horizontal_of a of AtLeft \<Rightarrow> l + hw | HCentered \<Rightarrow> l + aw / 2 | AtRight \<Rightarrow> r - hw) \<and>
   computeAnchoredY a tp ah bt hh =
     (case vertical_of a of AtTop \<Rightarrow> tp + hh | VCentered \<Rightarrow> tp + ah / 2 | AtBottom \<Rightarrow> bt - hh) \<and>
   inj (\<lambda>a. (horizontal_of a, vertical_of a)) \<and>
   (\<not> b_destroyed bd \<and> t_setPosition t \<longrightarrow>
      placeTarget bd sc t =
        Inr (t\<lparr>t_position := (anchored_x bd sc t, anchored_y bd sc t)\<rparr>)) \<and>
   anchorToViewport top_right_options target_100x50 =
     Inr (top_right_binding, scene_800x600, target_100x50\<lparr>t_position := (740, 35)\<rparr>)"
proof -
  have "anchorToViewport top_right_options target_100x50 =
     Inr (top_right_binding, scene_800x600, target_100x50\<lparr>t_position := (740, 35)\<rparr>)"
    by (simp add: anchorToViewport_def top_right_options_def top_right_binding_def
        target_100x50_def scene_800x600_def placeTarget_def Let_def getViewportRect_def
        getSafeAreaInsets_def getCssSafeAreaInsetsPx_def getCanvasToGameScale_def zeroInsets_def
        extra_def dflt_def getDisplaySize_def setTargetPosition_def)
  then show ?thesis
    using placeTarget_eq [of bd t sc] anchors_distinct
    by (simp add: computeAnchoredX_cases computeAnchoredY_cases)
qed

theorem anchor_placement_witness:
  "\<not> b_destroyed top_right_binding \<and> t_setPosition target_100x50 \<and>
   horizontal_of TopRight = AtRight \<and> vertical_of TopRight = AtTop \<and>
   placeTarget top_right_binding scene_800x600 target_100x50 =
     Inr (target_100x50\<lparr>t_position := (740, 35)\<rparr>) \<and>
   placeTarget (top_right_binding\<lparr>b_anchor := BottomLeft\<rparr>) scene_800x600 target_100x50 =
     Inr (target_100x50\<lparr>t_position := (40, 585)\<rparr>) \<and>
   placeTarget (top_right_binding\<lparr>b_anchor := Center\<rparr>) scene_800x600 target_100x50 =
     Inr (target_100x50\<lparr>t_position := (390, 310)\<rparr>)"
  using anchor_placement [of TopRight 0 800 800 50 0 600 600 25 top_right_binding target_100x50
      scene_800x600]
    anchor_placement [of TopRight 0 800 800 50 0 600 600 25
      "top_right_binding\<lparr>b_anchor := BottomLeft\<rparr>" target_100x50 scene_800x600]
    anchor_placement [of TopRight 0 800 800 50 0 600 600 25
      "top_right_binding\<lparr>b_anchor := Center\<rparr>" target_100x50 scene_800x600]
  by (simp add: top_right_binding_def target_100x50_def scene_800x600_def anchored_x_def
      anchored_y_def inner_left_def inner_right_def inner_top_def inner_bottom_def insets_of_def
      getViewportRect_def getSafeAreaInsets_def getCssSafeAreaInsetsPx_def
      getCanvasToGameScale_def zeroInsets_def extra_def dflt_def getDisplaySize_def)

end
